theory Spec2Isabelle
  imports Main "HOL-Library.Sublist"
begin

section \<open>Python string operations used by \<open>parsing.py\<close>\<close>

text \<open>
  Python strings are modelled as \<^typ>\<open>string\<close> (lists of characters with codes below 256).
  \<open>s.index(c)\<close> and \<open>s.rindex(c)\<close> raise \<open>ValueError\<close> when the character is absent;
  here they return \<open>None\<close> and the caller turns that into the exception.
\<close>

fun py_index :: "string \<Rightarrow> char \<Rightarrow> nat option" where
  "py_index [] c = None"
| "py_index (x # xs) c = (if x = c then Some 0 else map_option Suc (py_index xs c))"

definition py_rindex :: "string \<Rightarrow> char \<Rightarrow> nat option" where
  "py_rindex s c = (case py_index (rev s) c of None \<Rightarrow> None | Some k \<Rightarrow> Some (length s - 1 - k))"

definition startswith :: "string \<Rightarrow> string \<Rightarrow> bool" where
  "startswith s p = (take (length p) s = p)"

text \<open>
  \<open>s.replace(old, new)\<close>: the non-overlapping occurrences of \<open>old\<close> are replaced from left
  to right. For an empty \<open>old\<close> Python puts \<open>new\<close> before every character and at the end.
\<close>

function py_replace :: "string \<Rightarrow> string \<Rightarrow> string \<Rightarrow> string" where
  "py_replace old new s =
     (if old = [] then concat (map (\<lambda>c. new @ [c]) s) @ new
      else if s = [] then []
      else if startswith s old then new @ py_replace old new (drop (length old) s)
      else hd s # py_replace old new (tl s))"
  by pat_completeness auto
termination
  by (relation "measure (\<lambda>(old, new, s). length s)") auto

declare py_replace.simps [simp del]

text \<open>\<open>sub in s\<close> on strings: \<open>sub\<close> occurs as a contiguous substring of \<open>s\<close>.\<close>

fun py_in :: "string \<Rightarrow> string \<Rightarrow> bool" where
  "py_in sub [] = (sub = [])"
| "py_in sub (c # cs) = (startswith (c # cs) sub \<or> py_in sub cs)"

text \<open>\<open>sep.join(xs)\<close>.\<close>

fun join :: "string \<Rightarrow> string list \<Rightarrow> string" where
  "join sep [] = []"
| "join sep [x] = x"
| "join sep (x # y # ys) = x @ sep @ join sep (y # ys)"

text \<open>
  \<open>s.strip()\<close> removes leading and trailing whitespace; among the characters below 256
  Python counts as whitespace the codes 9 to 13, 28 to 32, 133 and 160.
\<close>

definition py_isspace :: "char \<Rightarrow> bool" where
  "py_isspace c = (c \<in> set [CHR 0x09, CHR 0x0A, CHR 0x0B, CHR 0x0C, CHR 0x0D, CHR 0x1C, CHR 0x1D,
                             CHR 0x1E, CHR 0x1F, CHR 0x20, CHR 0x85, CHR 0xA0])"

definition py_strip :: "string \<Rightarrow> string" where
  "py_strip s = rev (dropWhile py_isspace (rev (dropWhile py_isspace s)))"

text \<open>
  \<open>s.expandtabs()\<close>: a tab becomes one to eight spaces, up to the next column that is a
  multiple of eight; the column restarts after a line feed or a carriage return.
\<close>

fun expandtabs_from :: "nat \<Rightarrow> string \<Rightarrow> string" where
  "expandtabs_from col [] = []"
| "expandtabs_from col (c # cs) =
     (if c = CHR 0x09 then replicate (8 - col mod 8) CHR '' '' @ expandtabs_from 0 cs
      else if c = CHR 0x0A \<or> c = CHR 0x0D then c # expandtabs_from 0 cs
      else c # expandtabs_from (Suc col) cs)"

definition expandtabs :: "string \<Rightarrow> string" where
  "expandtabs s = expandtabs_from 0 s"

section \<open>Results of the grammar and of \<open>normalise\<close>\<close>

text \<open>
  The named results of one \<open>Group(argument)\<close>, as \<open>normalise\<close> reads them: every one is a
  string, the empty string when the optional part did not match.
\<close>

record arg_group =
  qualifier :: string
  input_type :: string
  pointer_or_reference1 :: string
  const_pointer_or_reference :: string
  pointer_or_reference2 :: string

text \<open>
  The result of \<open>arglist.parseString\<close>: the groups named \<open>arg_list\<close> and the tokens named
  \<open>var_args\<close> (empty when the optional \<open>, ...\<close> did not match).
\<close>

record parse_result =
  arg_list :: "arg_group list"
  var_args :: "string list"

datatype error = ValueError | ParseException

text \<open>
  How a block of statements ends: it returns a value, raises, or completes so that control
  reaches the statement after it. \<open>normalise\<close> returns a pair of strings or \<open>None\<close>.
\<close>

datatype 'a outcome = Returned 'a | Raised error | Completed

fun and_then :: "'a outcome \<Rightarrow> 'a outcome \<Rightarrow> 'a outcome" where
  "and_then Completed k = k"
| "and_then (Returned v) k = Returned v"
| "and_then (Raised e) k = Raised e"

section \<open>\<open>normalise\<close>, with the grammar call as a parameter\<close>

text \<open>Lines 120 to 136: the normalised form of one argument.\<close>

definition argument_string :: "arg_group \<Rightarrow> string" where
  "argument_string arg =
     (let argument_string_list = [''''];
          argument_string_list =
            (if qualifier arg \<noteq> [] then argument_string_list @ [concat [qualifier arg, '' '']]
             else argument_string_list);
          argument_string_list = argument_string_list @ [input_type arg];
          const_pointer_ref_list = [];
          const_pointer_ref_list = const_pointer_ref_list @ [pointer_or_reference1 arg];
          const_pointer_ref_list =
            (if const_pointer_or_reference arg \<noteq> []
             then const_pointer_ref_list @ [concat ['' '', const_pointer_or_reference arg, '' '']]
             else const_pointer_ref_list);
          const_pointer_ref_list = const_pointer_ref_list @ [pointer_or_reference2 arg];
          argument_string_list = argument_string_list @ const_pointer_ref_list
      in concat argument_string_list)"

text \<open>Lines 113 to 149: the \<open>else\<close> block of the last \<open>try\<close>, run on a successful parse.\<close>

definition build_result :: "string \<Rightarrow> string \<Rightarrow> parse_result \<Rightarrow> string \<times> string" where
  "build_result function_name arglist_suffix result =
     (let normalised_arg_list = map argument_string (arg_list result);
          normalised_arg_list =
            (if var_args result \<noteq> [] then normalised_arg_list @ [''...''] else normalised_arg_list);
          normalised_arg_list_string = concat [''('', join '', '' normalised_arg_list, '')''];
          normalised_arg_list_string =
            (if py_in ''const'' arglist_suffix then normalised_arg_list_string @ '' const''
             else normalised_arg_list_string)
      in (function_name, normalised_arg_list_string))"

text \<open>Lines 91 to 96: the special case for an empty argument list.\<close>

definition special_case :: "string \<Rightarrow> string \<Rightarrow> (string \<times> string) option outcome" where
  "special_case function_name arglist_input_string =
     (if startswith arglist_input_string ''()'' then
        (let arglist_input_string_no_spaces =
               py_replace '' '' '''' (py_replace '' final'' '''' (py_replace '' override'' '''' arglist_input_string))
         in if arglist_input_string_no_spaces \<in> set [''()'', ''()=0'', ''()=default'']
            then Returned (Some (function_name, ''()''))
            else if arglist_input_string_no_spaces \<in> set [''()const'', ''()const=0'']
            then Returned (Some (function_name, ''() const''))
            else Completed)
      else Completed)"

text \<open>
  Lines 99 to 152: the split at the last closing bracket, the grammar call and the statement
  after the \<open>try\<close>. \<open>parseString\<close> stands for \<open>arglist.parseString\<close>: \<open>None\<close> is a
  \<open>ParseException\<close>.
\<close>

definition grammar_path ::
  "(string \<Rightarrow> parse_result option) \<Rightarrow> string \<Rightarrow> string \<Rightarrow> (string \<times> string) option outcome" where
  "grammar_path parseString function_name arglist_input_string =
     (case py_rindex arglist_input_string CHR '')'' of
        None \<Rightarrow> Raised ValueError
      | Some closing_bracket_location \<Rightarrow>
          (let arglist_suffix = drop (closing_bracket_location + 1) arglist_input_string;
               arglist_input_string = take (closing_bracket_location + 1) arglist_input_string
           in and_then
                (case parseString arglist_input_string of
                   None \<Rightarrow> Raised ParseException
                 | Some result \<Rightarrow> Returned (Some (build_result function_name arglist_suffix result)))
                (Returned None)))"

definition normalise_with ::
  "(string \<Rightarrow> parse_result option) \<Rightarrow> string \<Rightarrow> (string \<times> string) option outcome" where
  "normalise_with parseString symbol =
     (case py_index symbol CHR ''('' of
        None \<Rightarrow> Returned (Some (symbol, ''''))
      | Some bracket_location \<Rightarrow>
          (let function_name = take bracket_location symbol;
               arglist_input_string = drop bracket_location symbol
           in and_then (special_case function_name arglist_input_string)
                (grammar_path parseString function_name arglist_input_string)))"

section \<open>The pyparsing expressions the grammar is built from\<close>

text \<open>
  The grammar of \<open>parsing.py\<close> is a value built from the expression classes of the pyparsing
  library. Each class is modelled by the function that its \<open>_parse\<close> method computes.

  A position \<open>(instring, loc)\<close> is modelled by the pair of the character before \<open>loc\<close>
  (\<open>None\<close> at \<open>loc = 0\<close>) and the text from \<open>loc\<close> on: no expression of the grammar reads
  anything else (only \<open>Keyword\<close> looks behind \<open>loc\<close>, by one character).
  A failing match (\<open>ParseException\<close>) is \<open>None\<close>; a match returns its tokens and the
  position after it.

  Every expression takes the flag \<open>sk\<close>, its attribute \<open>skipWhitespace\<close>: an expression
  skips the characters of \<open>DEFAULT_WHITE_CHARS\<close> before it matches, unless it stands inside a
  \<open>Combine\<close>, which calls \<open>leaveWhitespace\<close> on everything it contains.

  Parse actions of the grammar are pure and never fail, so a lookahead (which runs no
  action) and a parse agree on what is matched.
\<close>

datatype tok = Str string | Grp "tok list"

type_synonym pstate = "char option \<times> string"

type_synonym 'a parser = "bool \<Rightarrow> pstate \<Rightarrow> ('a list \<times> pstate) option"

definition white_chars :: string where
  "white_chars = [CHR '' '', CHR 0x0A, CHR 0x09, CHR 0x0D]"

definition nums :: string where
  "nums = ''0123456789''"

definition alphas :: string where
  "alphas = ''ABCDEFGHIJKLMNOPQRSTUVWXYZabcdefghijklmnopqrstuvwxyz''"

definition alphanums :: string where
  "alphanums = alphas @ nums"

definition hexnums :: string where
  "hexnums = nums @ ''ABCDEFabcdef''"

fun skip_white :: "pstate \<Rightarrow> pstate" where
  "skip_white (pv, []) = (pv, [])"
| "skip_white (pv, c # cs) = (if c \<in> set white_chars then skip_white (Some c, cs) else (pv, c # cs))"

definition pre_parse :: "bool \<Rightarrow> pstate \<Rightarrow> pstate" where
  "pre_parse sk st = (if sk then skip_white st else st)"

text \<open>Moving \<open>loc\<close> forward by \<open>n\<close> characters.\<close>

fun consume :: "nat \<Rightarrow> pstate \<Rightarrow> pstate" where
  "consume 0 st = st"
| "consume (Suc n) (pv, []) = (pv, [])"
| "consume (Suc n) (pv, c # cs) = consume n (Some c, cs)"

definition Literal :: "string \<Rightarrow> tok parser" where
  "Literal m sk st =
     (let st' = pre_parse sk st
      in if startswith (snd st') m then Some ([Str m], consume (length m) st') else None)"

text \<open>
  \<open>Keyword\<close>: the match string, not followed and not preceded by one of
  \<open>DEFAULT_KEYWORD_CHARS = alphanums + "_$"\<close>.
\<close>

definition keyword_chars :: string where
  "keyword_chars = alphanums @ ''_$''"

definition Keyword :: "string \<Rightarrow> tok parser" where
  "Keyword m sk st =
     (let st' = pre_parse sk st
      in if startswith (snd st') m
            \<and> (length (snd st') \<le> length m \<or> snd st' ! length m \<notin> set keyword_chars)
            \<and> (case fst st' of None \<Rightarrow> True | Some c \<Rightarrow> c \<notin> set keyword_chars)
         then Some ([Str m], consume (length m) st') else None)"

text \<open>\<open>Word(chars)\<close>: the longest run of characters of \<open>chars\<close>, at least one.\<close>

definition Word :: "string \<Rightarrow> tok parser" where
  "Word chars sk st =
     (let st' = pre_parse sk st; w = takeWhile (\<lambda>c. c \<in> set chars) (snd st')
      in if w = [] then None else Some ([Str w], consume (length w) st'))"

text \<open>\<open>CharsNotIn(chars, exact=1)\<close>: one character outside \<open>chars\<close>; it never skips whitespace.\<close>

definition CharsNotIn1 :: "string \<Rightarrow> tok parser" where
  "CharsNotIn1 chars sk st =
     (case snd st of [] \<Rightarrow> None
      | c # cs \<Rightarrow> if c \<in> set chars then None else Some ([Str [c]], consume 1 st))"

definition And :: "'a parser \<Rightarrow> 'a parser \<Rightarrow> 'a parser" where
  "And p q sk st =
     (case p sk st of None \<Rightarrow> None
      | Some (t1, st1) \<Rightarrow> (case q sk st1 of None \<Rightarrow> None | Some (t2, st2) \<Rightarrow> Some (t1 @ t2, st2)))"

text \<open>\<open>p | q\<close>: the first alternative that matches.\<close>

definition MatchFirst :: "'a parser \<Rightarrow> 'a parser \<Rightarrow> 'a parser" where
  "MatchFirst p q sk st = (case p sk st of Some r \<Rightarrow> Some r | None \<Rightarrow> q sk st)"

text \<open>\<open>p ^ q\<close>: the alternative that matches the most text, the earlier one on a tie.\<close>

definition Or :: "'a parser \<Rightarrow> 'a parser \<Rightarrow> 'a parser" where
  "Or p q sk st =
     (case p sk st of None \<Rightarrow> q sk st
      | Some (t1, st1) \<Rightarrow>
          (case q sk st of None \<Rightarrow> Some (t1, st1)
           | Some (t2, st2) \<Rightarrow>
               if length (snd st2) < length (snd st1) then Some (t2, st2) else Some (t1, st1)))"

text \<open>
  \<open>Optional(p)\<close> and \<open>Optional(p, default=d)\<close>: when \<open>p\<close> does not match, no token (or the
  default) at the position after the whitespace \<open>Optional\<close> itself skipped.
\<close>

definition Optional :: "'a parser \<Rightarrow> 'a parser" where
  "Optional p sk st =
     (let st' = pre_parse sk st in case p sk st' of Some r \<Rightarrow> Some r | None \<Rightarrow> Some ([], st'))"

definition Optional_default :: "'a parser \<Rightarrow> 'a \<Rightarrow> 'a parser" where
  "Optional_default p d sk st =
     (let st' = pre_parse sk st in case p sk st' of Some r \<Rightarrow> Some r | None \<Rightarrow> Some ([d], st'))"

text \<open>\<open>~p\<close>: matches nothing, where \<open>p\<close> does not match.\<close>

definition NotAny :: "'a parser \<Rightarrow> 'b parser" where
  "NotAny p sk st = (case p sk st of Some r \<Rightarrow> None | None \<Rightarrow> Some ([], st))"

definition Suppress :: "'a parser \<Rightarrow> 'b parser" where
  "Suppress p sk st = (case p sk st of None \<Rightarrow> None | Some (t, st') \<Rightarrow> Some ([], st'))"

text \<open>
  The loop of \<open>OneOrMore\<close> and \<open>ZeroOrMore\<close>: \<open>p\<close> is matched until it fails. In pyparsing the
  loop does not end while \<open>p\<close> matches; every expression the grammar repeats consumes at least
  one character, and the loop below stops should a match consume none.
\<close>

function many :: "'a parser \<Rightarrow> bool \<Rightarrow> pstate \<Rightarrow> 'a list \<times> pstate" where
  "many p sk st =
     (case p sk st of None \<Rightarrow> ([], st)
      | Some (t, st') \<Rightarrow>
          if length (snd st') < length (snd st)
          then (case many p sk st' of (ts, st'') \<Rightarrow> (t @ ts, st''))
          else (t, st'))"
  by pat_completeness auto
termination
  by (relation "measure (\<lambda>(p, sk, st). length (snd st))") auto

declare many.simps [simp del]

definition OneOrMore :: "'a parser \<Rightarrow> 'a parser" where
  "OneOrMore p sk st =
     (case p sk st of None \<Rightarrow> None
      | Some (t, st1) \<Rightarrow> (case many p sk st1 of (ts, st2) \<Rightarrow> Some (t @ ts, st2)))"

definition ZeroOrMore :: "'a parser \<Rightarrow> 'a parser" where
  "ZeroOrMore p sk st =
     (let st' = pre_parse sk st in case OneOrMore p sk st' of None \<Rightarrow> Some ([], st') | Some r \<Rightarrow> Some r)"

text \<open>
  \<open>SkipTo(p)\<close>: the text up to the first position at or after \<open>loc\<close> where \<open>p\<close> matches
  without skipping whitespace; \<open>p\<close> itself is not consumed.
\<close>

fun skip_scan :: "'a parser \<Rightarrow> char option \<Rightarrow> string \<Rightarrow> (string \<times> pstate) option" where
  "skip_scan p pv [] = (case p False (pv, []) of Some r \<Rightarrow> Some ([], (pv, [])) | None \<Rightarrow> None)"
| "skip_scan p pv (c # cs) =
     (case p False (pv, c # cs) of Some r \<Rightarrow> Some ([], (pv, c # cs))
      | None \<Rightarrow> (case skip_scan p (Some c) cs of None \<Rightarrow> None | Some (t, st) \<Rightarrow> Some (c # t, st)))"

definition SkipTo :: "'a parser \<Rightarrow> tok parser" where
  "SkipTo p sk st =
     (case pre_parse sk st of (pv, s) \<Rightarrow>
        (case skip_scan p pv s of None \<Rightarrow> None | Some (t, st') \<Rightarrow> Some ([Str t], st')))"

text \<open>
  \<open>Combine(p)\<close>: the tokens of \<open>p\<close>, matched without skipping whitespace inside, joined into
  one string; \<open>Combine\<close> itself skips whitespace before it.
\<close>

fun asStringList :: "tok list \<Rightarrow> string list" where
  "asStringList [] = []"
| "asStringList (Str s # toks) = s # asStringList toks"
| "asStringList (Grp ts # toks) = asStringList ts @ asStringList toks"

definition Combine :: "tok parser \<Rightarrow> tok parser" where
  "Combine p sk st =
     (case p False (pre_parse sk st) of None \<Rightarrow> None
      | Some (toks, st') \<Rightarrow> Some ([Str (concat (asStringList toks))], st'))"

text \<open>A parse action \<open>f\<close> on \<open>p\<close>: the tokens of a match are replaced by \<open>f\<close> of them.\<close>

definition parse_action :: "('a list \<Rightarrow> 'a list) \<Rightarrow> 'a parser \<Rightarrow> 'a parser" where
  "parse_action f p sk st = (case p sk st of None \<Rightarrow> None | Some (toks, st') \<Rightarrow> Some (f toks, st'))"

text \<open>The action \<open>sep.join\<close>: all tokens are strings here.\<close>

fun tok_str :: "tok \<Rightarrow> string" where
  "tok_str (Str s) = s"
| "tok_str (Grp ts) = []"

definition join_action :: "string \<Rightarrow> tok list \<Rightarrow> tok list" where
  "join_action sep toks = [Str (join sep (map tok_str toks))]"

text \<open>\<open>ungroup(p)\<close>: the action \<open>lambda t: t[0]\<close>.\<close>

definition ungroup :: "'a parser \<Rightarrow> 'a parser" where
  "ungroup p = parse_action (take 1) p"

text \<open>
  \<open>quotedString\<close>: \<open>Combine(Regex(dq) + '"' | Regex(sq) + "'")\<close>, where the regular
  expression for the quote character \<open>q\<close> is \<open>q(?:[^q\n\r\\]|(?:qq)|(?:\\(?:[^x]|x[0-9a-fA-F]+)))*\<close>.
  Nothing follows the starred group inside the expression, so the match takes, as often as
  it can, the first alternative that applies. \<open>quoted_star\<close> returns the text left after the
  starred group.
\<close>

function quoted_star :: "char \<Rightarrow> string \<Rightarrow> string" where
  "quoted_star q [] = []"
| "quoted_star q (c # cs) =
     (if c \<notin> set [q, CHR 0x0A, CHR 0x0D, CHR 0x5C] then quoted_star q cs
      else if c = q then
        (case cs of [] \<Rightarrow> c # cs | d # ds \<Rightarrow> if d = q then quoted_star q ds else c # cs)
      else if c = CHR 0x5C then
        (case cs of [] \<Rightarrow> c # cs
         | d # ds \<Rightarrow>
             if d \<noteq> CHR ''x'' then quoted_star q ds
             else if takeWhile (\<lambda>h. h \<in> set hexnums) ds = [] then c # cs
             else quoted_star q (dropWhile (\<lambda>h. h \<in> set hexnums) ds))
      else c # cs)"
  by pat_completeness auto
termination
  by (relation "measure (\<lambda>(q, s). length s)") (auto simp: length_dropWhile_le le_imp_less_Suc less_Suc_eq_le le_SucI)

definition Regex_quoted :: "char \<Rightarrow> tok parser" where
  "Regex_quoted q sk st =
     (let st' = pre_parse sk st
      in case snd st' of [] \<Rightarrow> None
         | c # cs \<Rightarrow>
             if c = q then
               (let n = Suc (length cs - length (quoted_star q cs))
                in Some ([Str (take n (c # cs))], consume n st'))
             else None)"

definition quotedString :: "tok parser" where
  "quotedString =
     Combine (MatchFirst (And (Regex_quoted CHR 0x22) (Literal [CHR 0x22]))
                         (And (Regex_quoted CHR 0x27) (Literal [CHR 0x27])))"

section \<open>The grammar of \<open>parsing.py\<close>\<close>

text \<open>Line 8: the punctuation.\<close>

definition LPAR :: "tok parser" where "LPAR = Literal ''(''"
definition RPAR :: "tok parser" where "RPAR = Literal '')''"
definition LBRACK :: "tok parser" where "LBRACK = Literal ''[''"
definition RBRACK :: "tok parser" where "RBRACK = Literal '']''"
definition COMMA :: "tok parser" where "COMMA = Literal '',''"
definition EQ :: "tok parser" where "EQ = Literal ''=''"

text \<open>Lines 11 and 12.\<close>

definition qualifier_expr :: "tok parser" where
  "qualifier_expr =
     ungroup (parse_action (join_action '' '')
       (OneOrMore (Or (Or (Or (Keyword ''const'') (Keyword ''typename'')) (Keyword ''struct''))
                      (Keyword ''enum''))))"

text \<open>Lines 19 to 29.\<close>

fun normalise_templates :: "tok list \<Rightarrow> string"
  and s_list_loop :: "tok list \<Rightarrow> string" where
  "normalise_templates toks = ''<'' @ s_list_loop toks @ '' >''"
| "s_list_loop [] = []"
| "s_list_loop (Str tok # toks) = ('' '' @ tok) @ s_list_loop toks"
| "s_list_loop (Grp tok # toks) = normalise_templates tok @ s_list_loop toks"

text \<open>
  Lines 15 and 16: \<open>toks[0]\<close> is the group that \<open>nestedExpr\<close> matched. (On a first token
  that is a string, \<open>asList\<close> does not exist; the action is only attached to \<open>nestedExpr\<close>.)
\<close>

fun turn_parseresults_to_list :: "tok list \<Rightarrow> tok list" where
  "turn_parseresults_to_list (Grp ts # rest) = [Str (normalise_templates ts)]"
| "turn_parseresults_to_list toks = toks"

text \<open>
  Line 33: \<open>nestedExpr(opener='<', closer='>')\<close> with the action of line 15. pyparsing
  builds it as
  \<open>ret = Forward(); ret <<= Group(Suppress('<') + ZeroOrMore(quotedString | ret | content) + Suppress('>'))\<close>
  with \<open>content = Combine(OneOrMore(~quotedString + CharsNotIn('<> \n\t\r', exact=1)))\<close>
  and the action \<open>lambda t: t[0].strip()\<close> on \<open>content\<close>. \<open>setParseAction\<close> changes \<open>ret\<close>
  itself, the object that the expression refers to for a nested pair, so the action runs on
  every pair, the innermost first. The expressions inside the \<open>Forward\<close> keep skipping
  whitespace when a \<open>Combine\<close> contains the pair: only the opening bracket follows \<open>sk\<close>.
\<close>

definition strip_action :: "tok list \<Rightarrow> tok list" where
  "strip_action toks = (case toks of Str s # rest \<Rightarrow> [Str (py_strip s)] | _ \<Rightarrow> toks)"

definition content :: "tok parser" where
  "content =
     parse_action strip_action
       (Combine (OneOrMore (And (NotAny quotedString) (CharsNotIn1 (''<>'' @ white_chars)))))"

text \<open>
  The recursion of \<open>ret\<close> and of its \<open>ZeroOrMore\<close> loop, counted down by \<open>fuel\<close>: every
  call of \<open>ret\<close> consumes the opening bracket and every round of the loop consumes an element,
  so that a run on a text of \<open>n\<close> characters makes fewer than \<open>2 * n + 2\<close> nested calls.
\<close>

fun nested_fuel :: "nat \<Rightarrow> bool \<Rightarrow> pstate \<Rightarrow> (tok list \<times> pstate) option"
  and items_fuel :: "nat \<Rightarrow> pstate \<Rightarrow> tok list \<times> pstate" where
  "nested_fuel 0 sk st = None"
| "nested_fuel (Suc fuel) sk st =
     (case Literal ''<'' sk st of None \<Rightarrow> None
      | Some (t0, st1) \<Rightarrow>
          (case items_fuel fuel (skip_white st1) of (toks, st2) \<Rightarrow>
             (case Literal ''>'' True st2 of None \<Rightarrow> None
              | Some (t3, st3) \<Rightarrow> Some (turn_parseresults_to_list [Grp toks], st3))))"
| "items_fuel 0 st = ([], st)"
| "items_fuel (Suc fuel) st =
     (case quotedString True st of
        Some (t, st') \<Rightarrow> (case items_fuel fuel st' of (ts, st'') \<Rightarrow> (t @ ts, st''))
      | None \<Rightarrow>
     (case nested_fuel fuel True st of
        Some (t, st') \<Rightarrow> (case items_fuel fuel st' of (ts, st'') \<Rightarrow> (t @ ts, st''))
      | None \<Rightarrow>
     (case content True st of
        Some (t, st') \<Rightarrow> (case items_fuel fuel st' of (ts, st'') \<Rightarrow> (t @ ts, st''))
      | None \<Rightarrow> ([], st))))"

definition nested_expr :: "tok parser" where
  "nested_expr sk st = nested_fuel (2 * length (snd st) + 2) sk st"

definition angle_bracket_pair :: "tok parser" where
  "angle_bracket_pair = nested_expr"

text \<open>Lines 35 and 36.\<close>

definition parentheses_pair :: "tok parser" where
  "parentheses_pair = And (And LPAR (SkipTo RPAR)) RPAR"

definition square_bracket_pair :: "tok parser" where
  "square_bracket_pair = And (And LBRACK (SkipTo RBRACK)) RBRACK"

text \<open>Lines 39 to 41.\<close>

definition nonfundamental_input_type :: "tok parser" where
  "nonfundamental_input_type =
     Combine (And (Word (alphanums @ '':_''))
                  (Optional (And angle_bracket_pair (Optional (Word (alphanums @ '':_''))))))"

definition fundamental_input_type :: "tok parser" where
  "fundamental_input_type =
     OneOrMore
       (Or (Or (Or (Or (Or (Or (Or (Or (Keyword ''bool'') (Keyword ''short'')) (Keyword ''int''))
                                (Keyword ''long'')) (Keyword ''signed'')) (Keyword ''unsigned''))
                   (Keyword ''char'')) (Keyword ''float'')) (Keyword ''double''))"

definition input_type_expr :: "tok parser" where
  "input_type_expr = Or fundamental_input_type nonfundamental_input_type"

text \<open>Lines 44 to 53.\<close>

definition number :: "tok parser" where
  "number = Word (''-.'' @ nums)"

definition input_name :: "tok parser" where
  "input_name =
     OneOrMore
       (MatchFirst (MatchFirst (MatchFirst (Word (alphanums @ ''_'')) angle_bracket_pair)
                               parentheses_pair)
                   square_bracket_pair)"

definition pointer_or_reference :: "tok parser" where
  "pointer_or_reference =
     Combine (And (MatchFirst (Literal ''*'') (Literal ''&'')) (Optional (Literal ''...'')))"

definition default_value :: "tok parser" where
  "default_value =
     And (Literal ''='')
         (OneOrMore
            (MatchFirst (MatchFirst (MatchFirst (MatchFirst (MatchFirst (MatchFirst
               number quotedString) input_type_expr) parentheses_pair) angle_bracket_pair)
               square_bracket_pair) (Word ''|&^'')))"

text \<open>
  Lines 56 to 60: the five named results. The value of a name is the first token of the
  named expression, and the empty string when it produced none.
\<close>

definition named :: "tok list \<Rightarrow> string" where
  "named toks = (case toks of [] \<Rightarrow> [] | t # rest \<Rightarrow> tok_str t)"

definition argument_type :: "bool \<Rightarrow> pstate \<Rightarrow> (arg_group \<times> pstate) option" where
  "argument_type sk st =
     (case Optional_default qualifier_expr (Str []) sk st of None \<Rightarrow> None
      | Some (q, st1) \<Rightarrow>
     (case parse_action (join_action '' '') input_type_expr sk st1 of None \<Rightarrow> None
      | Some (ty, st2) \<Rightarrow>
     (case Optional_default pointer_or_reference (Str []) sk st2 of None \<Rightarrow> None
      | Some (p1, st3) \<Rightarrow>
     (case Optional (Literal ''const'') sk st3 of None \<Rightarrow> None
      | Some (c, st4) \<Rightarrow>
     (case Optional_default pointer_or_reference (Str []) sk st4 of None \<Rightarrow> None
      | Some (p2, st5) \<Rightarrow>
          Some (\<lparr>qualifier = named q, input_type = named ty, pointer_or_reference1 = named p1,
                 const_pointer_or_reference = named c, pointer_or_reference2 = named p2\<rparr>, st5))))))"

text \<open>Line 63: the group of one argument; the name and the default value are matched and dropped.\<close>

definition argument :: "arg_group parser" where
  "argument sk st =
     (case argument_type sk st of None \<Rightarrow> None
      | Some (a, st1) \<Rightarrow>
     (case Optional input_name sk st1 of None \<Rightarrow> None
      | Some (n, st2) \<Rightarrow>
     (case Optional default_value sk st2 of None \<Rightarrow> None
      | Some (d, st3) \<Rightarrow> Some ([a], st3))))"

text \<open>\<open>delimitedList(p)\<close> is \<open>p + ZeroOrMore(Suppress(",") + p)\<close>.\<close>

definition delimitedList :: "'a parser \<Rightarrow> 'a parser" where
  "delimitedList p = And p (ZeroOrMore (And (Suppress (Literal '','')) p))"

text \<open>Line 66.\<close>

definition arglist :: "bool \<Rightarrow> pstate \<Rightarrow> (parse_result \<times> pstate) option" where
  "arglist sk st =
     (case LPAR sk st of None \<Rightarrow> None
      | Some (l, st1) \<Rightarrow>
     (case delimitedList argument sk st1 of None \<Rightarrow> None
      | Some (args, st2) \<Rightarrow>
     (case Optional (And COMMA (Literal ''...'')) sk st2 of None \<Rightarrow> None
      | Some (va, st3) \<Rightarrow>
     (case RPAR sk st3 of None \<Rightarrow> None
      | Some (r, st4) \<Rightarrow> Some (\<lparr>arg_list = args, var_args = map tok_str va\<rparr>, st4)))))"

text \<open>
  \<open>expr.parseString(instring)\<close>: tabs are expanded, the expression is matched at \<open>loc = 0\<close>,
  and text left after the match is ignored (\<open>parseAll\<close> is false).
\<close>

definition parseString :: "(bool \<Rightarrow> pstate \<Rightarrow> ('r \<times> pstate) option) \<Rightarrow> string \<Rightarrow> 'r option" where
  "parseString expr instring = map_option fst (expr True (None, expandtabs instring))"

section \<open>\<open>normalise\<close>\<close>

definition normalise :: "string \<Rightarrow> (string \<times> string) option outcome" where
  "normalise symbol = normalise_with (parseString arglist) symbol"

section \<open>The shape of a rendered template region\<close>



text \<open>
  A word: a token that \<open>content\<close> matches and \<open>strip\<close> leaves as it is, without quote
  characters.
\<close>

definition word_token :: "string \<Rightarrow> bool" where
  "word_token e =
     (e \<noteq> [] \<and> (\<forall>c\<in>set e. c \<noteq> CHR ''<'' \<and> c \<noteq> CHR ''>'' \<and> c \<noteq> CHR 0x22 \<and> c \<noteq> CHR 0x27 \<and>
                            \<not> py_isspace c))"

text \<open>
  A normal rendering: a padded rendering whose elements are words or normal renderings.
\<close>

inductive normal_rendering :: "string \<Rightarrow> bool" where
  region: "(\<forall>e\<in>set elems. word_token e \<or> normal_rendering e) \<Longrightarrow>
           normal_rendering (''<'' @ concat (map (\<lambda>e. CHR '' '' # e) elems) @ '' >'')"

text \<open>
  The quote characters, and the characters that \<open>strip\<close> removes and the grammar does not skip
  as whitespace. A plain text holds none of them.
\<close>

definition quote_chars :: string where
  "quote_chars = [CHR 0x22, CHR 0x27]"

definition odd_space_chars :: string where
  "odd_space_chars = [CHR 0x0B, CHR 0x0C, CHR 0x1C, CHR 0x1D, CHR 0x1E, CHR 0x1F, CHR 0x85, CHR 0xA0]"

definition plain_text :: "string \<Rightarrow> bool" where
  "plain_text s = (\<forall>c\<in>set s. c \<notin> set (quote_chars @ odd_space_chars))"

lemma py_index_None: "py_index s c = None \<longleftrightarrow> c \<notin> set s"
  by (induction s) auto

lemma normalise_with_bare:
  "CHR ''('' \<notin> set symbol \<Longrightarrow> normalise_with P symbol = Returned (Some (symbol, ''''))"
  by (simp add: normalise_with_def py_index_None[symmetric])

section \<open>Facts about the string operations\<close>


lemma py_index_split:
  "c \<notin> set name \<Longrightarrow> py_index (name @ c # rest) c = Some (length name)"
  by (induction name) auto


lemma py_rindex_split:
  "c \<notin> set sfx \<Longrightarrow> py_rindex (pre @ c # sfx) c = Some (length pre)"
proof -
  assume a: "c \<notin> set sfx"
  have "py_index (rev sfx @ c # rev pre) c = Some (length (rev sfx))"
    using a by (intro py_index_split) simp
  then show ?thesis by (simp add: py_rindex_def)
qed

lemma py_in_iff: "py_in sub s \<longleftrightarrow> (\<exists>a b. s = a @ sub @ b)"
proof (induction s)
  case Nil
  then show ?case by (auto simp: startswith_def)
next
  case (Cons c cs)
  have sw: "startswith (c # cs) sub \<longleftrightarrow> (\<exists>b. c # cs = sub @ b)"
    unfolding startswith_def
    by (metis append_eq_conv_conj append_take_drop_id)
  show ?case
  proof
    assume "py_in sub (c # cs)"
    then consider "startswith (c # cs) sub" | "py_in sub cs" by auto
    then show "\<exists>a b. c # cs = a @ sub @ b"
    proof cases
      case 1
      then obtain b where "c # cs = sub @ b" using sw by blast
      then have "c # cs = [] @ sub @ b" by simp
      then show ?thesis by blast
    next
      case 2
      then obtain a b where "cs = a @ sub @ b" using Cons.IH by blast
      then have "c # cs = (c # a) @ sub @ b" by simp
      then show ?thesis by blast
    qed
  next
    assume "\<exists>a b. c # cs = a @ sub @ b"
    then obtain a b where ab: "c # cs = a @ sub @ b" by blast
    show "py_in sub (c # cs)"
    proof (cases a)
      case Nil
      with ab have "c # cs = sub @ b" by simp
      then have "startswith (c # cs) sub" using sw by blast
      then show ?thesis by simp
    next
      case (Cons x xs)
      with ab have "cs = xs @ sub @ b" by simp
      then have "py_in sub cs" using Cons.IH by blast
      then show ?thesis by simp
    qed
  qed
qed

section \<open>Properties of \<open>normalise\<close>\<close>

lemma normalise_with_split:
  assumes "CHR ''('' \<notin> set name"
  shows "normalise_with P (name @ CHR ''('' # rest) =
           and_then (special_case name (CHR ''('' # rest)) (grammar_path P name (CHR ''('' # rest))"
  using assms by (simp add: normalise_with_def py_index_split Let_def)

lemma grammar_path_split:
  assumes "CHR '')'' \<notin> set sfx"
  shows "grammar_path P name (pre @ CHR '')'' # sfx) =
           (case P (pre @ '')'') of None \<Rightarrow> Raised ParseException
            | Some r \<Rightarrow> Returned (Some (build_result name sfx r)))"
  using assms by (simp add: grammar_path_def py_rindex_split split: option.splits)


lemma startswith_Cons2:
  "startswith s [a, b] \<Longrightarrow> \<exists>t. s = a # b # t"
  by (cases s; cases "tl s") (auto simp: startswith_def)


lemma special_case_cases:
  "special_case name region = Completed \<or> special_case name region = Returned (Some (name, ''()''))
   \<or> special_case name region = Returned (Some (name, ''() const''))"
  by (simp add: special_case_def Let_def)

lemma grammar_path_cases:
  "grammar_path P name region = Raised ValueError \<or> grammar_path P name region = Raised ParseException
   \<or> (\<exists>args. grammar_path P name region = Returned (Some (name, args)))"
  by (auto simp: grammar_path_def build_result_def Let_def split: option.splits)

lemma build_result_eq:
  "build_result name sfx r =
     (name, ''('' @ join '', '' (map argument_string (arg_list r) @ (if var_args r = [] then [] else [''...'']))
            @ '')'' @ (if (\<exists>a b. sfx = a @ ''const'' @ b) then '' const'' else []))"
  by (simp add: build_result_def Let_def py_in_iff)

lemma argument_string_eq:
  "argument_string arg =
     (if qualifier arg = [] then [] else qualifier arg @ '' '') @ input_type arg @
     pointer_or_reference1 arg @
     (if const_pointer_or_reference arg = [] then [] else '' '' @ const_pointer_or_reference arg @ '' '') @
     pointer_or_reference2 arg"
  by (simp add: argument_string_def Let_def)

text \<open>
  Claim C1. Let the symbol have its first opening bracket after \<open>name\<close>, let the special
  case for an empty argument list not apply, and let \<open>sfx\<close> be the text after the last
  closing bracket of the argument region. When the grammar accepts the region up to and
  including that bracket, \<open>normalise\<close> returns \<open>name\<close> with the rendered arguments joined by
  a comma and a space inside brackets, a final element \<open>...\<close> when the list is variadic, and
  \<open>const\<close> appended after a space exactly when \<open>sfx\<close> contains the substring \<open>const\<close>.
  An argument is rendered as its qualifier followed by a space, when it has one, then its
  type, the first pointer or reference marker, the \<open>const\<close> between the markers with a space
  on either side, when there is one, and the second marker.
\<close>

theorem normalise_grammar_path:
  assumes "CHR ''('' \<notin> set name"
    and "special_case name (CHR ''('' # rest) = Completed"
    and "CHR ''('' # rest = pre @ CHR '')'' # sfx"
    and "CHR '')'' \<notin> set sfx"
    and "parseString arglist (pre @ '')'') = Some result"
  shows "normalise (name @ CHR ''('' # rest) =
           Returned (Some (name,
             ''('' @ join '', ''
                (map (\<lambda>arg. (if qualifier arg = [] then [] else qualifier arg @ '' '') @
                             input_type arg @ pointer_or_reference1 arg @
                             (if const_pointer_or_reference arg = [] then []
                              else '' '' @ const_pointer_or_reference arg @ '' '') @
                             pointer_or_reference2 arg)
                     (arg_list result)
                 @ (if var_args result = [] then [] else [''...'']))
             @ '')'' @ (if (\<exists>a b. sfx = a @ ''const'' @ b) then '' const'' else [])))"
proof -
  have "normalise (name @ CHR ''('' # rest) = grammar_path (parseString arglist) name (pre @ CHR '')'' # sfx)"
    using assms(1,2) unfolding normalise_def normalise_with_split [OF assms(1)] assms(3) [symmetric]
    by simp
  also have "\<dots> = Returned (Some (build_result name sfx result))"
    using assms(4,5) by (simp add: grammar_path_split)
  finally show ?thesis unfolding build_result_eq argument_string_eq .
qed

theorem normalise_grammar_path_witness:
  "normalise ''Foo::bar(const QString & a, int * const * b, ...) const =0'' =
     Returned (Some (''Foo::bar'', ''(const QString&, int* const *, ...) const''))"
proof -
  have h1: "CHR ''('' \<notin> set ''Foo::bar''" by simp
  have h2: "special_case ''Foo::bar'' (CHR ''('' # ''const QString & a, int * const * b, ...) const =0'') = Completed"
    by code_simp
  have h3: "CHR ''('' # ''const QString & a, int * const * b, ...) const =0'' =
      ''(const QString & a, int * const * b, ...'' @ CHR '')'' # '' const =0''"
    by simp
  have h4: "CHR '')'' \<notin> set '' const =0''" by simp
  have h5: "parseString arglist (''(const QString & a, int * const * b, ...'' @ '')'') =
      Some \<lparr>arg_list = [\<lparr>qualifier = ''const'', input_type = ''QString'', pointer_or_reference1 = ''&'',
                 const_pointer_or_reference = [], pointer_or_reference2 = []\<rparr>,
               \<lparr>qualifier = [], input_type = ''int'', pointer_or_reference1 = ''*'',
                 const_pointer_or_reference = ''const'', pointer_or_reference2 = ''*''\<rparr>],
            var_args = ['','', ''...'']\<rparr>"
    by code_simp
  have ex: "\<exists>a b. '' const =0'' = a @ ''const'' @ b"
    by (rule exI [of _ "'' ''"], rule exI [of _ "'' =0''"]) simp
  show ?thesis
    using normalise_grammar_path [OF h1 h2 h3 h4 h5] ex
    by simp
qed

text \<open>
  Claim C3. A symbol without an opening bracket is returned unchanged, paired with the empty
  string; nothing is raised, and the result is the same whatever the grammar is, that is,
  the grammar is not used.
\<close>

theorem normalise_bare_name:
  assumes "CHR ''('' \<notin> set symbol"
  shows "normalise symbol = Returned (Some (symbol, [])) \<and>
         (\<forall>P. normalise_with P symbol = Returned (Some (symbol, [])))"
  using assms by (simp add: normalise_def normalise_with_bare)

theorem normalise_bare_name_witness:
  "CHR ''('' \<notin> set ''PolyVox::Volume'' \<and>
   normalise ''PolyVox::Volume'' = Returned (Some (''PolyVox::Volume'', []))"
  using normalise_bare_name [of "''PolyVox::Volume''"] by simp

lemma normalise_with_cases:
  "normalise_with P symbol = Raised ValueError \<or> normalise_with P symbol = Raised ParseException
   \<or> (\<exists>name args. normalise_with P symbol = Returned (Some (name, args)))"
proof (cases "py_index symbol CHR ''(''")
  case None
  then show ?thesis by (simp add: normalise_with_def)
next
  case (Some i)
  let ?n = "take i symbol" and ?r = "drop i symbol"
  have eq: "normalise_with P symbol = and_then (special_case ?n ?r) (grammar_path P ?n ?r)"
    using Some by (simp add: normalise_with_def Let_def)
  from special_case_cases [of ?n ?r] show ?thesis
  proof (elim disjE)
    assume "special_case ?n ?r = Completed"
    then show ?thesis using eq grammar_path_cases [of P ?n ?r] by auto
  qed (auto simp: eq)
qed

text \<open>
  Claim C9. For every symbol \<open>normalise\<close> raises \<open>ValueError\<close> or \<open>ParseException\<close>, or
  returns a pair of strings. It never returns \<open>None\<close> and never runs off its end: the
  statement \<open>return None\<close> after the last \<open>try\<close> is not reached.
\<close>

theorem normalise_never_None:
  "normalise symbol \<noteq> Returned None \<and> normalise symbol \<noteq> Completed \<and>
   (normalise symbol = Raised ValueError \<or> normalise symbol = Raised ParseException
    \<or> (\<exists>name args. normalise symbol = Returned (Some (name, args))))"
  using normalise_with_cases [of "parseString arglist" symbol]
  by (auto simp: normalise_def)





text \<open>
  Claim C4, at two inputs that differ only in the name of the argument: the name \<open>consta\<close>
  is not ignored, its first five letters are taken for the \<open>const\<close> between the pointer
  markers (line 59 matches a \<open>Literal\<close>, where the qualifier of line 11 matches a
  \<open>Keyword\<close>), and the normalised argument lists differ.
\<close>

theorem argument_name_leaks:
  "normalise ''f(int a)'' = Returned (Some (''f'', ''(int)'')) \<and>
   normalise ''f(int consta)'' = Returned (Some (''f'', ''(int const )''))"
  by code_simp

lemma filter_py_replace_aux:
  "new = [] \<Longrightarrow> old \<noteq> [] \<Longrightarrow> \<forall>c\<in>set old. \<not> P c \<Longrightarrow>
   filter P (py_replace old new s) = filter P s"
proof (induction old new s rule: py_replace.induct)
  case (1 old new s)
  show ?case
  proof (cases "s = []")
    case True
    then show ?thesis using "1.prems" by (subst py_replace.simps) simp
  next
    case False
    show ?thesis
    proof (cases "startswith s old")
      case True
      then have s: "s = old @ drop (length old) s"
        by (metis startswith_def append_take_drop_id)
      have "filter P s = filter P old @ filter P (drop (length old) s)"
        by (subst s) simp
      moreover have "filter P old = []" using "1.prems" by (simp add: filter_empty_conv)
      ultimately have fs: "filter P s = filter P (drop (length old) s)" by simp
      have "py_replace old new s = py_replace old new (drop (length old) s)"
        using "1.prems" False True by (subst py_replace.simps) simp
      moreover have "filter P (py_replace old new (drop (length old) s)) = filter P (drop (length old) s)"
        using "1.IH"(1) "1.prems" False True by blast
      ultimately show ?thesis using fs by simp
    next
      case nsw: False
      have s: "filter P s = filter P (hd s # tl s)" using False by simp
      have "py_replace old new s = hd s # py_replace old new (tl s)"
        using "1.prems" False nsw by (subst py_replace.simps) simp
      moreover have "filter P (py_replace old new (tl s)) = filter P (tl s)"
        using "1.IH"(2) "1.prems" False nsw by blast
      ultimately show ?thesis using s by simp
    qed
  qed
qed

lemma filter_py_replace:
  "old \<noteq> [] \<Longrightarrow> \<forall>c\<in>set old. \<not> P c \<Longrightarrow> filter P (py_replace old [] s) = filter P s"
  by (rule filter_py_replace_aux) simp_all

lemma special_case_Returned:
  assumes "special_case name region = Returned v"
  shows "\<exists>t. region = ''()'' @ t \<and> CHR '')'' \<notin> set t"
proof -
  let ?P = "\<lambda>c. c = CHR '')''"
  let ?s = "py_replace '' '' [] (py_replace '' final'' [] (py_replace '' override'' [] region))"
  from assms have sw: "startswith region ''()''"
    by (auto simp: special_case_def split: if_splits)
  from assms sw have mem: "?s \<in> set [''()'', ''()=0'', ''()=default'', ''()const'', ''()const=0'']"
    by (auto simp: special_case_def Let_def split: if_splits)
  then consider "?s = ''()''" | "?s = ''()=0''" | "?s = ''()=default''" | "?s = ''()const''"
    | "?s = ''()const=0''" by auto
  then have "filter ?P ?s = '')''" by cases simp_all
  moreover have "filter ?P ?s = filter ?P region"
    by (simp add: filter_py_replace)
  ultimately have f: "filter ?P region = '')''" by simp
  from sw obtain t where t: "region = CHR ''('' # CHR '')'' # t"
    using startswith_Cons2 by blast
  with f have "filter ?P t = []" by simp
  then have "CHR '')'' \<notin> set t" by (auto simp: filter_empty_conv)
  with t show ?thesis by simp
qed

text \<open>
  Claim C8, as amended. For every input that the special case for an empty argument list
  accepts, the rest of \<open>normalise\<close>, run in its place, raises \<open>ParseException\<close>: the only
  closing bracket is the second character, and \<open>arglist\<close> does not match \<open>()\<close>, because
  \<open>delimitedList\<close> needs at least one argument. The special case is the only treatment of
  empty argument lists, not a shortcut for the grammar.
\<close>

theorem fast_path_needed:
  assumes "special_case name region = Returned v"
  shows "grammar_path (parseString arglist) name region = Raised ParseException"
proof -
  from special_case_Returned [OF assms] obtain t where
    t: "region = ''('' @ CHR '')'' # t" "CHR '')'' \<notin> set t" by auto
  have "parseString arglist (''('' @ '')'') = None" by code_simp
  then show ?thesis
    unfolding t(1) using grammar_path_split [OF t(2), of "parseString arglist" name "''(''"] by simp
qed

theorem fast_path_needed_witness:
  "special_case ''Volume::printAll'' ''() const'' = Returned (Some (''Volume::printAll'', ''() const'')) \<and>
   grammar_path (parseString arglist) ''Volume::printAll'' ''() const'' = Raised ParseException"
proof -
  have s: "special_case ''Volume::printAll'' ''() const'' = Returned (Some (''Volume::printAll'', ''() const''))"
    by code_simp
  from fast_path_needed [OF s] s show ?thesis by simp
qed

text \<open>
  Claim C8 as stated fails at \<open>Volume::printAll()\<close>: the special case returns the empty
  argument list, the grammar path on the same input raises.
\<close>

theorem fast_path_not_optimisation:
  "normalise ''Volume::printAll()'' = Returned (Some (''Volume::printAll'', ''()'')) \<and>
   grammar_path (parseString arglist) ''Volume::printAll'' ''()'' = Raised ParseException"
  by code_simp

section \<open>What the grammar returns\<close>

lemma many_all:
  "many p sk st = (ts, st') \<Longrightarrow>
   (\<And>sk st t st'. p sk st = Some (t, st') \<Longrightarrow> \<forall>x\<in>set t. Q x) \<Longrightarrow> \<forall>x\<in>set ts. Q x"
proof (induction p sk st arbitrary: ts st' rule: many.induct)
  case (1 p sk st)
  note step = "1.prems"(2)
  show ?case
  proof (cases "p sk st")
    case None
    with "1.prems"(1) show ?thesis by (subst (asm) many.simps) simp
  next
    case (Some r)
    obtain t st1 where r: "r = (t, st1)" by (cases r)
    have qt: "\<forall>x\<in>set t. Q x" using step Some r by blast
    show ?thesis
    proof (cases "length (snd st1) < length (snd st)")
      case True
      obtain ts1 st2 where m: "many p sk st1 = (ts1, st2)" by (cases "many p sk st1")
      have "\<forall>x\<in>set ts1. Q x"
        using "1.IH" [OF Some r [symmetric] True m] step by blast
      moreover have "ts = t @ ts1"
        using "1.prems"(1) Some r True m by (subst (asm) many.simps) simp
      ultimately show ?thesis using qt by auto
    next
      case False
      have "ts = t"
        using "1.prems"(1) Some r False by (subst (asm) many.simps) simp
      then show ?thesis using qt by simp
    qed
  qed
qed

lemma Keyword_tokens: "Keyword m sk st = Some (t, st') \<Longrightarrow> t = [Str m]"
  by (auto simp: Keyword_def Let_def split: if_splits)

lemma Literal_tokens: "Literal m sk st = Some (t, st') \<Longrightarrow> t = [Str m]"
  by (auto simp: Literal_def Let_def split: if_splits)

lemma Word_tokens: "Word cs sk st = Some (t, st') \<Longrightarrow> \<exists>w. w \<noteq> [] \<and> t = [Str w]"
  by (auto simp: Word_def Let_def split: if_splits)

lemma Or_cases: "Or p q sk st = Some r \<Longrightarrow> p sk st = Some r \<or> q sk st = Some r"
  by (auto simp: Or_def split: option.splits if_splits prod.splits)

lemma And_tokens:
  "And p q sk st = Some (t, st') \<Longrightarrow>
   \<exists>t1 st1 t2. p sk st = Some (t1, st1) \<and> q sk st1 = Some (t2, st') \<and> t = t1 @ t2"
  by (auto simp: And_def split: option.splits prod.splits)

lemma OneOrMore_tokens:
  "OneOrMore p sk st = Some (t, st') \<Longrightarrow>
   \<exists>t1 st1 ts. p sk st = Some (t1, st1) \<and> many p sk st1 = (ts, st') \<and> t = t1 @ ts"
  by (auto simp: OneOrMore_def split: option.splits prod.splits)

lemma Suppress_tokens: "Suppress p sk st = Some (t, st') \<Longrightarrow> t = []"
  by (auto simp: Suppress_def split: option.splits prod.splits)

lemma ZeroOrMore_all:
  assumes "ZeroOrMore p sk st = Some (t, st')"
    and "\<And>sk st t st'. p sk st = Some (t, st') \<Longrightarrow> \<forall>x\<in>set t. Q x"
  shows "\<forall>x\<in>set t. Q x"
proof (cases "OneOrMore p sk (pre_parse sk st)")
  case None
  with assms(1) show ?thesis by (simp add: ZeroOrMore_def Let_def)
next
  case (Some r)
  with assms(1) have "OneOrMore p sk (pre_parse sk st) = Some (t, st')"
    by (simp add: ZeroOrMore_def Let_def)
  from OneOrMore_tokens [OF this] obtain t1 st1 ts where
    a: "p sk (pre_parse sk st) = Some (t1, st1)" "many p sk st1 = (ts, st')" "t = t1 @ ts"
    by blast
  have "\<forall>x\<in>set t1. Q x" using assms(2) a(1) by blast
  moreover have "\<forall>x\<in>set ts. Q x" using many_all [OF a(2)] assms(2) by blast
  ultimately show ?thesis using a(3) by auto
qed

lemma join_nonempty: "x \<noteq> [] \<Longrightarrow> join sep (x # xs) \<noteq> []"
  by (cases xs) auto

lemma fundamental_tokens:
  assumes "fundamental_input_type sk st = Some (t, st')"
  shows "\<exists>x xs. t = Str x # xs \<and> x \<noteq> []"
proof -
  from OneOrMore_tokens [OF assms [unfolded fundamental_input_type_def]]
  obtain t1 st1 ts where k: "(Or (Or (Or (Or (Or (Or (Or (Or (Keyword ''bool'') (Keyword ''short''))
      (Keyword ''int'')) (Keyword ''long'')) (Keyword ''signed'')) (Keyword ''unsigned''))
      (Keyword ''char'')) (Keyword ''float'')) (Keyword ''double'')) sk st = Some (t1, st1)"
    and t: "t = t1 @ ts" by blast
  from k have "\<exists>m. m \<noteq> [] \<and> t1 = [Str m]"
    by (elim Or_cases [THEN disjE]) (auto dest: Keyword_tokens)
  with t show ?thesis by auto
qed

lemma nonfundamental_tokens:
  assumes "nonfundamental_input_type sk st = Some (t, st')"
  shows "\<exists>x xs. t = Str x # xs \<and> x \<noteq> []"
proof -
  from assms obtain toks where
    a: "And (Word (alphanums @ '':_''))
          (Optional (And angle_bracket_pair (Optional (Word (alphanums @ '':_'')))))
          False (pre_parse sk st) = Some (toks, st')"
    and t: "t = [Str (concat (asStringList toks))]"
    by (auto simp: nonfundamental_input_type_def Combine_def split: option.splits prod.splits)
  from And_tokens [OF a] obtain t1 st1 t2 where
    w: "Word (alphanums @ '':_'') False (pre_parse sk st) = Some (t1, st1)" and tk: "toks = t1 @ t2"
    by blast
  from Word_tokens [OF w] obtain x where "x \<noteq> []" "t1 = [Str x]" by blast
  with tk t show ?thesis by simp
qed

lemma input_type_tokens:
  assumes "input_type_expr sk st = Some (t, st')"
  shows "\<exists>x xs. t = Str x # xs \<and> x \<noteq> []"
  using Or_cases [OF assms [unfolded input_type_expr_def]] fundamental_tokens nonfundamental_tokens
  by blast

lemma Optional_const_tokens:
  "Optional (Literal ''const'') sk st = Some (c, st') \<Longrightarrow> named c = [] \<or> named c = ''const''"
  by (auto simp: Optional_def Let_def named_def dest!: Literal_tokens split: option.splits)

lemma joined_type:
  assumes "parse_action (join_action '' '') input_type_expr sk st = Some (ty, st')"
  shows "named ty \<noteq> []"
proof -
  from assms obtain t where a: "input_type_expr sk st = Some (t, st')"
    and ty: "ty = join_action '' '' t"
    by (auto simp: parse_action_def split: option.splits prod.splits)
  from input_type_tokens [OF a] obtain x xs where "t = Str x # xs" "x \<noteq> []" by blast
  then show ?thesis using ty join_nonempty [of x "'' ''" "map tok_str xs"]
    by (simp add: join_action_def named_def)
qed

lemma argument_type_inv:
  assumes "argument_type sk st = Some (a, st')"
  shows "input_type a \<noteq> [] \<and> (const_pointer_or_reference a = [] \<or> const_pointer_or_reference a = ''const'')"
proof -
  note d = assms [unfolded argument_type_def]
  from d obtain q st1 where 1: "Optional_default qualifier_expr (Str []) sk st = Some (q, st1)"
    by (cases "Optional_default qualifier_expr (Str []) sk st") auto
  from d 1 obtain ty st2 where
    2: "parse_action (join_action '' '') input_type_expr sk st1 = Some (ty, st2)"
    by (cases "parse_action (join_action '' '') input_type_expr sk st1") auto
  from d 1 2 obtain p1 st3 where
    3: "Optional_default pointer_or_reference (Str []) sk st2 = Some (p1, st3)"
    by (cases "Optional_default pointer_or_reference (Str []) sk st2") auto
  from d 1 2 3 obtain c st4 where 4: "Optional (Literal ''const'') sk st3 = Some (c, st4)"
    by (cases "Optional (Literal ''const'') sk st3") auto
  from d 1 2 3 4 obtain p2 st5 where
    5: "Optional_default pointer_or_reference (Str []) sk st4 = Some (p2, st5)"
    by (cases "Optional_default pointer_or_reference (Str []) sk st4") auto
  from d 1 2 3 4 5 have a: "input_type a = named ty" "const_pointer_or_reference a = named c"
    by auto
  show ?thesis using joined_type [OF 2] Optional_const_tokens [OF 4] a by simp
qed

lemma argument_inv:
  assumes "argument sk st = Some (t, st')"
  shows "\<forall>a\<in>set t. input_type a \<noteq> [] \<and>
           (const_pointer_or_reference a = [] \<or> const_pointer_or_reference a = ''const'')"
    and "t \<noteq> []"
proof -
  note d = assms [unfolded argument_def]
  from d obtain a st1 where 1: "argument_type sk st = Some (a, st1)"
    by (cases "argument_type sk st") auto
  from d 1 obtain n st2 where 2: "Optional input_name sk st1 = Some (n, st2)"
    by (cases "Optional input_name sk st1") auto
  from d 1 2 obtain dv st3 where 3: "Optional default_value sk st2 = Some (dv, st3)"
    by (cases "Optional default_value sk st2") auto
  from d 1 2 3 have "t = [a]" by auto
  with 1 have "argument_type sk st = Some (a, st1)" "t = [a]" by simp_all
  then show "\<forall>a\<in>set t. input_type a \<noteq> [] \<and>
           (const_pointer_or_reference a = [] \<or> const_pointer_or_reference a = ''const'')"
    and "t \<noteq> []"
    using argument_type_inv by auto
qed

lemma arglist_inv:
  assumes "arglist sk st = Some (r, st')"
  shows "arg_list r \<noteq> [] \<and> (\<forall>a\<in>set (arg_list r). input_type a \<noteq> [] \<and>
           (const_pointer_or_reference a = [] \<or> const_pointer_or_reference a = ''const''))"
proof -
  let ?Q = "\<lambda>a. input_type a \<noteq> [] \<and>
           (const_pointer_or_reference a = [] \<or> const_pointer_or_reference a = ''const'')"
  note e = assms [unfolded arglist_def]
  from e obtain l st1 where 1: "LPAR sk st = Some (l, st1)"
    by (cases "LPAR sk st") auto
  from e 1 obtain args st2 where d: "delimitedList argument sk st1 = Some (args, st2)"
    by (cases "delimitedList argument sk st1") auto
  from e 1 d obtain va st3 where 3: "Optional (And COMMA (Literal ''...'')) sk st2 = Some (va, st3)"
    by (cases "Optional (And COMMA (Literal ''...'')) sk st2") auto
  from e 1 d 3 obtain rp st4 where 4: "RPAR sk st3 = Some (rp, st4)"
    by (cases "RPAR sk st3") auto
  from e 1 d 3 4 have r: "arg_list r = args" by auto
  from And_tokens [OF d [unfolded delimitedList_def]] obtain t1 st3 t2 where
    f: "argument sk st1 = Some (t1, st3)"
    and z: "ZeroOrMore (And (Suppress (Literal '','')) argument) sk st3 = Some (t2, st2)"
    and args: "args = t1 @ t2" by blast
  have step: "\<And>sk st t st'. And (Suppress (Literal '','')) argument sk st = Some (t, st')
      \<Longrightarrow> \<forall>x\<in>set t. ?Q x"
  proof -
    fix sk st t st'
    assume "And (Suppress (Literal '','')) argument sk st = Some (t, st')"
    from And_tokens [OF this] obtain u1 su u2 where
      "Suppress (Literal '','') sk st = Some (u1, su)" "argument sk su = Some (u2, st')" "t = u1 @ u2"
      by blast
    then have "u1 = []" "\<forall>x\<in>set u2. ?Q x" "t = u1 @ u2"
      using Suppress_tokens [of "Literal '',''" sk st u1 su] argument_inv(1) [of sk su u2 st'] by simp_all
    then show "\<forall>x\<in>set t. ?Q x" by simp
  qed
  have "\<forall>x\<in>set t2. ?Q x"
    by (rule ZeroOrMore_all [where Q = ?Q, OF z]) (erule step)
  moreover have "\<forall>x\<in>set t1. ?Q x" "t1 \<noteq> []" using argument_inv [OF f] by blast+
  ultimately show ?thesis using r args by auto
qed

lemma parseString_arglist_inv:
  assumes "parseString arglist text = Some r"
  shows "arg_list r \<noteq> [] \<and> (\<forall>a\<in>set (arg_list r). input_type a \<noteq> [] \<and>
           (const_pointer_or_reference a = [] \<or> const_pointer_or_reference a = ''const''))"
proof -
  from assms obtain st' where "arglist True (None, expandtabs text) = Some (r, st')"
    by (auto simp: parseString_def)
  then show ?thesis by (rule arglist_inv)
qed

section \<open>The rendering of arguments\<close>

lemma join_nth:
  "i < length xs \<Longrightarrow>
   \<exists>pre post. join sep xs = pre @ xs ! i @ post \<and> (post = [] \<or> (\<exists>post'. post = sep @ post'))"
proof (induction sep xs arbitrary: i rule: join.induct)
  case (1 sep)
  then show ?case by simp
next
  case (2 sep x)
  then have "join sep [x] = [] @ [x] ! i @ []" by simp
  then show ?case by blast
next
  case (3 sep x y ys)
  show ?case
  proof (cases i)
    case 0
    then have "join sep (x # y # ys) = [] @ (x # y # ys) ! i @ sep @ join sep (y # ys)" by simp
    then show ?thesis by blast
  next
    case (Suc k)
    with "3.prems" have "k < length (y # ys)" by simp
    from "3.IH" [OF this] obtain pre post where
      j: "join sep (y # ys) = pre @ (y # ys) ! k @ post" and p: "post = [] \<or> (\<exists>post'. post = sep @ post')"
      by blast
    have "join sep (x # y # ys) = (x @ sep @ pre) @ (x # y # ys) ! i @ post"
      using j Suc by simp
    with p show ?thesis by blast
  qed
qed

text \<open>
  Claim C10. In every successful parse, an argument with the embedded \<open>const\<close> and without
  a second pointer or reference marker is rendered as a string that ends in \<open>const\<close> between
  two spaces, and this string, trailing space included, stands in the normalised argument
  list right before a comma or the closing bracket.
\<close>

theorem embedded_const_trailing_space:
  assumes "parseString arglist text = Some r"
    and "i < length (arg_list r)"
    and "const_pointer_or_reference (arg_list r ! i) \<noteq> []"
    and "pointer_or_reference2 (arg_list r ! i) = []"
  shows "\<exists>front pre post.
           argument_string (arg_list r ! i) = front @ '' const '' \<and>
           snd (build_result name sfx r) = pre @ front @ '' const '' @ post \<and>
           (startswith post '', '' \<or> startswith post '')'')"
proof -
  let ?a = "arg_list r ! i"
  let ?xs = "map argument_string (arg_list r) @ (if var_args r = [] then [] else [''...''])"
  let ?opt = "if (\<exists>a b. sfx = a @ ''const'' @ b) then '' const'' else []"
  have "?a \<in> set (arg_list r)" using assms(2) by simp
  with parseString_arglist_inv [OF assms(1)] assms(3)
  have c: "const_pointer_or_reference ?a = ''const''" by blast
  define front where "front = (if qualifier ?a \<noteq> [] then qualifier ?a @ '' '' else []) @ input_type ?a
      @ pointer_or_reference1 ?a"
  have as: "argument_string ?a = front @ '' const ''"
    using c assms(4) by (simp add: argument_string_def front_def)
  have i: "i < length ?xs" using assms(2) by simp
  have nth: "?xs ! i = argument_string ?a" using assms(2) by (simp add: nth_append)
  from join_nth [OF i, of "'', ''"] obtain pre post where
    j: "join '', '' ?xs = pre @ ?xs ! i @ post" and p: "post = [] \<or> (\<exists>post'. post = '', '' @ post')"
    by blast
  have b: "snd (build_result name sfx r) = ''('' @ join '', '' ?xs @ '')'' @ ?opt"
    by (simp add: build_result_eq)
  have "snd (build_result name sfx r) = (''('' @ pre) @ front @ '' const '' @ (post @ '')'' @ ?opt)"
    unfolding b j nth as by simp
  moreover have "startswith (post @ '')'' @ ?opt) '', '' \<or> startswith (post @ '')'' @ ?opt) '')''"
    using p by (auto simp: startswith_def)
  ultimately show ?thesis using as by blast
qed

theorem embedded_const_trailing_space_witness:
  "normalise ''f(int * const)'' = Returned (Some (''f'', ''(int* const )'')) \<and>
   (\<exists>front pre post. ''int* const '' = front @ '' const '' \<and>
       ''(int* const )'' = pre @ front @ '' const '' @ post \<and>
       (startswith post '', '' \<or> startswith post '')''))"
proof -
  let ?r = "\<lparr>arg_list = [\<lparr>qualifier = [], input_type = ''int'', pointer_or_reference1 = ''*'',
                 const_pointer_or_reference = ''const'', pointer_or_reference2 = []\<rparr>],
            var_args = []\<rparr>"
  have p: "parseString arglist ''(int * const)'' = Some ?r" by code_simp
  have n: "normalise ''f(int * const)'' = Returned (Some (''f'', ''(int* const )''))" by code_simp
  have a: "argument_string (arg_list ?r ! 0) = ''int* const ''" by (simp add: argument_string_def)
  have b: "snd (build_result ''f'' [] ?r) = ''(int* const )''"
    by (simp add: build_result_def argument_string_def)
  from embedded_const_trailing_space [OF p, of 0 "''f''" "[]"]
  have "\<exists>front pre post.
           argument_string (arg_list ?r ! 0) = front @ '' const '' \<and>
           snd (build_result ''f'' [] ?r) = pre @ front @ '' const '' @ post \<and>
           (startswith post '', '' \<or> startswith post '')'')" by simp
  then show ?thesis unfolding a b using n by simp
qed

section \<open>The special case for an empty argument list\<close>

lemma build_result_not_empty_list:
  assumes "parseString arglist text = Some r"
  shows "snd (build_result name sfx r) \<noteq> ''()'' \<and> snd (build_result name sfx r) \<noteq> ''() const''"
proof -
  let ?xs = "map argument_string (arg_list r) @ (if var_args r = [] then [] else [''...''])"
  from parseString_arglist_inv [OF assms] obtain a as where
    al: "arg_list r = a # as" and ty: "input_type a \<noteq> []"
    by (cases "arg_list r") auto
  have "argument_string a \<noteq> []" using ty by (simp add: argument_string_def Let_def)
  moreover have "?xs = argument_string a # (map argument_string as @ (if var_args r = [] then [] else [''...'']))"
    using al by simp
  ultimately have "join '', '' ?xs \<noteq> []" using join_nonempty by metis
  then obtain c cs where j: "join '', '' ?xs = c # cs" by (cases "join '', '' ?xs") auto
  have b: "snd (build_result name sfx r) =
      ''('' @ join '', '' ?xs @ '')'' @ (if (\<exists>a b. sfx = a @ ''const'' @ b) then '' const'' else [])"
    by (simp add: build_result_eq)
  have l: "length (snd (build_result name sfx r)) \<ge> 3" unfolding b j by simp
  have "snd (build_result name sfx r) \<noteq> ''() const''"
  proof
    assume e: "snd (build_result name sfx r) = ''() const''"
    show False
    proof (cases "\<exists>a b. sfx = a @ ''const'' @ b")
      case True
      with e b j have "length (c # cs @ '')'' @ '' const'') = length '') const''" by simp
      then show False by simp
    next
      case False
      with e b j have "last (c # cs @ '')'') = last '') const''" by simp
      then show False by simp
    qed
  qed
  moreover have "snd (build_result name sfx r) \<noteq> ''()''" using l by auto
  ultimately show ?thesis by simp
qed

lemma grammar_path_not_empty_list:
  "grammar_path (parseString arglist) name region \<noteq> Returned (Some (name, ''()'')) \<and>
   grammar_path (parseString arglist) name region \<noteq> Returned (Some (name, ''() const''))"
proof (cases "py_rindex region CHR '')''")
  case None
  then show ?thesis by (simp add: grammar_path_def)
next
  case (Some j)
  let ?t = "take (j + 1) region" and ?s = "drop (j + 1) region"
  show ?thesis
  proof (cases "parseString arglist ?t")
    case None
    with Some show ?thesis by (simp add: grammar_path_def Let_def)
  next
    case (Some r)
    have "grammar_path (parseString arglist) name region = Returned (Some (build_result name ?s r))"
      using Some \<open>py_rindex region CHR '')'' = Some j\<close> by (simp add: grammar_path_def Let_def)
    moreover obtain a where br: "build_result name ?s r = (name, a)"
      by (simp add: build_result_def Let_def)
    moreover have "a \<noteq> ''()'' \<and> a \<noteq> ''() const''"
      using build_result_not_empty_list [OF Some, of name ?s] br by simp
    ultimately show ?thesis by simp
  qed
qed

text \<open>
  Claim C2. Let the argument region (from the first opening bracket on) begin with \<open>()\<close>,
  and let \<open>stripped\<close> be the region after deleting \<open>override\<close> and \<open>final\<close> with their
  leading space and then all spaces. \<open>normalise\<close> returns the name with \<open>()\<close> exactly when
  \<open>stripped\<close> is \<open>()\<close>, \<open>()=0\<close> or \<open>()=default\<close>, and the name with \<open>() const\<close> exactly when
  \<open>stripped\<close> is \<open>()const\<close> or \<open>()const=0\<close>; in these five cases the result is the same
  whatever the grammar is, that is, the grammar is not used.
\<close>

theorem special_case_exact:
  assumes "CHR ''('' \<notin> set name" and "startswith (CHR ''('' # rest) ''()''"
    and "stripped = py_replace '' '' [] (py_replace '' final'' [] (py_replace '' override'' [] (CHR ''('' # rest)))"
  shows "(normalise (name @ CHR ''('' # rest) = Returned (Some (name, ''()''))
            \<longleftrightarrow> stripped \<in> set [''()'', ''()=0'', ''()=default'']) \<and>
         (normalise (name @ CHR ''('' # rest) = Returned (Some (name, ''() const''))
            \<longleftrightarrow> stripped \<in> set [''()const'', ''()const=0'']) \<and>
         (stripped \<in> set [''()'', ''()=0'', ''()=default'', ''()const'', ''()const=0'']
            \<longrightarrow> (\<forall>P. normalise_with P (name @ CHR ''('' # rest) = normalise (name @ CHR ''('' # rest)))"
proof -
  let ?region = "CHR ''('' # rest"
  let ?g = "grammar_path (parseString arglist) name ?region"
  define A where "A = (stripped \<in> set [''()'', ''()=0'', ''()=default''])"
  define B where "B = (stripped \<in> set [''()const'', ''()const=0''])"
  have AB: "A \<Longrightarrow> \<not> B" unfolding A_def B_def by auto
  have five: "stripped \<in> set [''()'', ''()=0'', ''()=default'', ''()const'', ''()const=0''] \<longleftrightarrow> A \<or> B"
    unfolding A_def B_def by auto
  have eq: "\<And>P. normalise_with P (name @ ?region) = and_then (special_case name ?region) (grammar_path P name ?region)"
    using assms(1) by (simp add: normalise_with_split)
  have "special_case name ?region =
      (if stripped \<in> set [''()'', ''()=0'', ''()=default''] then Returned (Some (name, ''()''))
       else if stripped \<in> set [''()const'', ''()const=0''] then Returned (Some (name, ''() const''))
       else Completed)"
    unfolding special_case_def Let_def assms(3) using assms(2) by (simp only: if_True)
  then have sc: "special_case name ?region =
      (if A then Returned (Some (name, ''()'')) else if B then Returned (Some (name, ''() const''))
       else Completed)"
    unfolding A_def B_def .
  have g: "?g \<noteq> Returned (Some (name, ''()''))" "?g \<noteq> Returned (Some (name, ''() const''))"
    using grammar_path_not_empty_list [of name ?region] by simp_all
  have n: "normalise (name @ ?region) = and_then (special_case name ?region) ?g"
    using eq by (simp add: normalise_def)
  have ne: "Returned (Some (name, ''()'')) \<noteq> Returned (Some (name, ''() const''))" by simp
  have goal: "(normalise (name @ ?region) = Returned (Some (name, ''()'')) \<longleftrightarrow> A) \<and>
         (normalise (name @ ?region) = Returned (Some (name, ''() const'')) \<longleftrightarrow> B) \<and>
         (A \<or> B \<longrightarrow> (\<forall>P. normalise_with P (name @ ?region) = normalise (name @ ?region)))"
  proof (cases A)
    case True
    then have s: "special_case name ?region = Returned (Some (name, ''()''))" using sc by simp
    have "\<not> B" using True AB by simp
    then show ?thesis using True ne unfolding n eq s by simp
  next
    case nA: False
    show ?thesis
    proof (cases B)
      case True
      then have s: "special_case name ?region = Returned (Some (name, ''() const''))"
        using sc nA by simp
      show ?thesis using True nA ne unfolding n eq s by simp
    next
      case False
      then have s: "special_case name ?region = Completed" using sc nA by simp
      show ?thesis using False nA g unfolding n eq s by simp
    qed
  qed
  show ?thesis unfolding five using goal unfolding A_def B_def .
qed

theorem special_case_exact_witness:
  "normalise ''Foo::bar()=0'' = Returned (Some (''Foo::bar'', ''()'')) \<and>
   normalise ''Volume::printAll() const override'' = Returned (Some (''Volume::printAll'', ''() const'')) \<and>
   (\<forall>P. normalise_with P ''Foo::bar()=0'' = normalise ''Foo::bar()=0'')"
proof -
  have n1: "CHR ''('' \<notin> set ''Foo::bar''" by simp
  have s1: "startswith (CHR ''('' # '')=0'') ''()''" by (simp add: startswith_def)
  have r1: "''()=0'' = py_replace '' '' [] (py_replace '' final'' [] (py_replace '' override'' [] (CHR ''('' # '')=0'')))"
    by code_simp
  have n2: "CHR ''('' \<notin> set ''Volume::printAll''" by simp
  have s2: "startswith (CHR ''('' # '') const override'') ''()''" by (simp add: startswith_def)
  have r2: "''()const'' = py_replace '' '' [] (py_replace '' final'' [] (py_replace '' override'' [] (CHR ''('' # '') const override'')))"
    by code_simp
  from special_case_exact [OF n1 s1 r1] have 1: "normalise ''Foo::bar()=0'' = Returned (Some (''Foo::bar'', ''()''))"
    and 3: "\<forall>P. normalise_with P ''Foo::bar()=0'' = normalise ''Foo::bar()=0''" by simp_all
  from special_case_exact [OF n2 s2 r2]
  have 2: "normalise ''Volume::printAll() const override'' = Returned (Some (''Volume::printAll'', ''() const''))"
    by simp
  from 1 2 3 show ?thesis by simp
qed

section \<open>The rendering of template regions\<close>

lemma s_list_loop_Str: "s_list_loop (map Str es) = concat (map (\<lambda>e. CHR '' '' # e) es)"
  by (induction es) simp_all



lemma Combine_tokens:
  assumes "Combine p sk st = Some (t, st')"
  shows "\<exists>toks. p False (pre_parse sk st) = Some (toks, st') \<and> t = [Str (concat (asStringList toks))]"
  using assms by (cases "p False (pre_parse sk st)") (auto simp: Combine_def)

lemma parse_action_tokens:
  assumes "parse_action f p sk st = Some (t, st')"
  shows "\<exists>toks. p sk st = Some (toks, st') \<and> t = f toks"
  using assms by (cases "p sk st") (auto simp: parse_action_def)














section \<open>Parsing a rendered template region again\<close>

lemma white_isspace: "c \<in> set white_chars \<Longrightarrow> py_isspace c"
  by (auto simp: white_chars_def py_isspace_def)

lemma skip_white_id: "c \<notin> set white_chars \<Longrightarrow> skip_white (pv, c # s) = (pv, c # s)"
  by simp

lemma skip_white_space: "skip_white (pv, CHR '' '' # s) = skip_white (Some CHR '' '', s)"
  by (simp add: white_chars_def)

lemma skip_white_idem: "skip_white (skip_white st) = skip_white st"
proof -
  have "skip_white (skip_white (pv, s)) = skip_white (pv, s)" for pv s
    by (induction s arbitrary: pv) simp_all
  then show ?thesis by (cases st) simp
qed

lemma Combine_skip: "Combine p True st = Combine p False (skip_white st)"
  by (simp add: Combine_def pre_parse_def)

lemma quotedString_skip: "quotedString True st = quotedString False (skip_white st)"
  unfolding quotedString_def by (rule Combine_skip)

lemma content_skip: "content True st = content False (skip_white st)"
  unfolding content_def parse_action_def Combine_skip [of _ st] ..

lemma Literal_skip: "Literal m True st = Literal m False (skip_white st)"
  by (simp add: Literal_def pre_parse_def)

lemma nested_skip: "nested_fuel n True st = nested_fuel n False (skip_white st)"
  by (cases n) (simp_all add: Literal_skip [of _ st])

lemma Regex_quoted_None: "c \<noteq> q \<Longrightarrow> Regex_quoted q False (pv, c # s) = None"
  by (simp add: Regex_quoted_def pre_parse_def)

lemma quotedString_None:
  assumes "c \<noteq> CHR 0x22" "c \<noteq> CHR 0x27"
  shows "quotedString False (pv, c # s) = None"
  using assms
  by (simp add: quotedString_def Combine_def pre_parse_def MatchFirst_def And_def Regex_quoted_None)

lemma Literal_open: "Literal ''<'' False (pv, CHR ''<'' # s) = Some ([Str ''<''], (Some CHR ''<'', s))"
  by (simp add: Literal_def pre_parse_def startswith_def)

lemma Literal_open_None: "c \<noteq> CHR ''<'' \<Longrightarrow> Literal ''<'' False (pv, c # s) = None"
  by (simp add: Literal_def pre_parse_def startswith_def)

lemma Literal_close: "Literal ''>'' False (pv, CHR ''>'' # s) = Some ([Str ''>''], (Some CHR ''>'', s))"
  by (simp add: Literal_def pre_parse_def startswith_def)

lemma nested_None: "c \<noteq> CHR ''<'' \<Longrightarrow> nested_fuel n False (pv, c # s) = None"
  by (cases n) (simp_all add: Literal_open_None)


lemma CharsNotIn1_stop: "c \<in> set X \<Longrightarrow> CharsNotIn1 X sk (pv, c # s) = None"
  by (simp add: CharsNotIn1_def)

lemma CharsNotIn1_char:
  "c \<notin> set X \<Longrightarrow> CharsNotIn1 X sk (pv, c # s) = Some ([Str [c]], (Some c, s))"
  by (simp add: CharsNotIn1_def)

lemma content_char_stop:
  "c \<in> set X \<Longrightarrow> And (NotAny q) (CharsNotIn1 X) sk (pv, c # s) = None"
  by (cases "q sk (pv, c # s)") (simp_all add: And_def NotAny_def CharsNotIn1_stop)

lemma content_char_step:
  assumes "c \<noteq> CHR 0x22" "c \<noteq> CHR 0x27" "c \<notin> set X"
  shows "And (NotAny quotedString) (CharsNotIn1 X) False (pv, c # s) = Some ([Str [c]], (Some c, s))"
  using assms by (simp add: And_def NotAny_def quotedString_None CharsNotIn1_char)

lemma many_word:
  assumes "\<forall>c\<in>set e. c \<noteq> CHR 0x22 \<and> c \<noteq> CHR 0x27 \<and> c \<notin> set X" and "d \<in> set X"
  shows "many (And (NotAny quotedString) (CharsNotIn1 X)) False (pv, e @ d # tail) =
           (map (\<lambda>c. Str [c]) e, (if e = [] then pv else Some (last e), d # tail))"
  using assms(1)
proof (induction e arbitrary: pv)
  case Nil
  show ?case using assms(2) by (subst many.simps) (simp add: content_char_stop)
next
  case (Cons c e)
  from Cons.prems have c: "c \<noteq> CHR 0x22" "c \<noteq> CHR 0x27" "c \<notin> set X"
    and e: "\<forall>c\<in>set e. c \<noteq> CHR 0x22 \<and> c \<noteq> CHR 0x27 \<and> c \<notin> set X" by simp_all
  have step: "And (NotAny quotedString) (CharsNotIn1 X) False (pv, c # e @ d # tail) =
      Some ([Str [c]], (Some c, e @ d # tail))"
    using c by (rule content_char_step)
  show ?case
    by (subst many.simps) (simp add: step Cons.IH [OF e])
qed

lemma concat_chars: "concat (asStringList (map (\<lambda>c. Str [c]) e)) = e"
  by (induction e) simp_all

lemma py_strip_id:
  assumes "e \<noteq> []" "\<not> py_isspace (hd e)" "\<not> py_isspace (last e)"
  shows "py_strip e = e"
proof -
  have 1: "dropWhile py_isspace e = e" using assms(2) by (simp add: dropWhile_eq_self_iff)
  have "hd (rev e) = last e" by (simp add: hd_rev)
  then have 2: "dropWhile py_isspace (rev e) = rev e" using assms(3) by (simp add: dropWhile_eq_self_iff)
  show ?thesis by (simp add: py_strip_def 1 2)
qed

lemma content_word:
  assumes "word_token e"
  shows "content False (pv, e @ CHR '' '' # tail) = Some ([Str e], (Some (last e), CHR '' '' # tail))"
proof -
  define X where "X = ''<>'' @ white_chars"
  define p :: "tok parser" where "p = And (NotAny quotedString) (CharsNotIn1 X)"
  have cd: "content = parse_action strip_action (Combine (OneOrMore p))"
    by (simp add: content_def p_def X_def)
  from assms obtain c e' where e: "e = c # e'" by (cases e) (auto simp: word_token_def)
  have sp: "CHR '' '' \<in> set X" by (simp add: X_def white_chars_def)
  have good: "\<forall>c\<in>set e. c \<noteq> CHR 0x22 \<and> c \<noteq> CHR 0x27 \<and> c \<notin> set X"
  proof
    fix x assume "x \<in> set e"
    with assms have x: "x \<noteq> CHR ''<''" "x \<noteq> CHR ''>''" "x \<noteq> CHR 0x22" "x \<noteq> CHR 0x27" "\<not> py_isspace x"
      by (auto simp: word_token_def)
    from x(5) white_isspace have "x \<notin> set white_chars" by blast
    with x show "x \<noteq> CHR 0x22 \<and> x \<noteq> CHR 0x27 \<and> x \<notin> set X" by (simp add: X_def)
  qed
  then have gc: "c \<noteq> CHR 0x22" "c \<noteq> CHR 0x27" "c \<notin> set X"
    and ge: "\<forall>c\<in>set e'. c \<noteq> CHR 0x22 \<and> c \<noteq> CHR 0x27 \<and> c \<notin> set X" by (simp_all add: e)
  have first: "p False (pv, c # e' @ CHR '' '' # tail) = Some ([Str [c]], (Some c, e' @ CHR '' '' # tail))"
    unfolding p_def using gc by (rule content_char_step)
  have rest: "many p False (Some c, e' @ CHR '' '' # tail) =
      (map (\<lambda>c. Str [c]) e', (if e' = [] then Some c else Some (last e'), CHR '' '' # tail))"
    unfolding p_def using ge sp by (rule many_word)
  define l where "l = last (c # e')"
  have one: "OneOrMore p False (pv, c # e' @ CHR '' '' # tail) =
      Some (Str [c] # map (\<lambda>c. Str [c]) e', (Some l, CHR '' '' # tail))"
    unfolding l_def by (simp add: OneOrMore_def first rest)
  have "concat (asStringList (map (\<lambda>c. Str [c]) (c # e'))) = c # e'" by (rule concat_chars)
  then have cc: "concat (asStringList (Str [c] # map (\<lambda>c. Str [c]) e')) = c # e'" by simp
  have comb: "Combine (OneOrMore p) False (pv, c # e' @ CHR '' '' # tail) =
      Some ([Str (c # e')], (Some l, CHR '' '' # tail))"
    by (simp add: Combine_def pre_parse_def one concat_chars)
  have "hd e \<in> set e" "last e \<in> set e" using e by simp_all
  with assms have "\<not> py_isspace (hd e)" "\<not> py_isspace (last e)" by (auto simp: word_token_def)
  then have "py_strip e = e" using e by (intro py_strip_id) simp_all
  then have st: "strip_action [Str (c # e')] = [Str (c # e')]" by (simp add: strip_action_def e)
  have "content False (pv, c # e' @ CHR '' '' # tail) =
      Some ([Str (c # e')], (Some l, CHR '' '' # tail))"
    by (simp add: cd parse_action_def comb st)
  then show ?thesis unfolding l_def e by simp
qed

lemma content_None:
  assumes "c \<in> set (''<>'' @ white_chars)"
  shows "content False (pv, c # s) = None"
proof -
  define X where "X = ''<>'' @ white_chars"
  define p :: "tok parser" where "p = And (NotAny quotedString) (CharsNotIn1 X)"
  have cd: "content = parse_action strip_action (Combine (OneOrMore p))"
    by (simp add: content_def p_def X_def)
  have "p False (pv, c # s) = None"
    unfolding p_def using assms [folded X_def] by (rule content_char_stop)
  then show ?thesis
    by (simp add: cd parse_action_def Combine_def pre_parse_def OneOrMore_def)
qed


lemma items_fixpoint:
  assumes "\<forall>e\<in>set elems. word_token e \<or>
             ((\<exists>e'. e = CHR ''<'' # e') \<and>
              (\<forall>n pv rest. length e \<le> n \<longrightarrow>
                 nested_fuel n False (pv, e @ rest) = Some ([Str e], (Some CHR ''>'', rest))))"
    and "length (concat (map (\<lambda>e. CHR '' '' # e) elems)) \<le> n"
    and "skip_white st = skip_white (pv, concat (map (\<lambda>e. CHR '' '' # e) elems) @ '' >'' @ rest)"
  shows "\<exists>st2. items_fuel n st = (map Str elems, st2) \<and>
               skip_white st2 = (Some CHR '' '', CHR ''>'' # rest)"
  using assms
proof (induction elems arbitrary: n st pv)
  case Nil
  then have sw: "skip_white st = (Some CHR '' '', CHR ''>'' # rest)" by (simp add: white_chars_def)
  have q: "quotedString True st = None"
    unfolding quotedString_skip sw by (rule quotedString_None) simp_all
  have ne: "nested_fuel k True st = None" for k
    unfolding nested_skip sw by (rule nested_None) simp
  have c: "content True st = None"
    unfolding content_skip sw by (rule content_None) simp
  have "items_fuel n st = ([], st)" by (cases n) (simp_all add: q ne c)
  with sw show ?case by simp
next
  case (Cons e es)
  define tail where "tail = concat (map (\<lambda>e. CHR '' '' # e) es) @ '' >'' @ rest"
  have "\<exists>t. tail = CHR '' '' # t" unfolding tail_def by (cases es) simp_all
  then obtain t where t: "tail = CHR '' '' # t" ..
  from Cons.prems(2) obtain k where k: "n = Suc k" and ke: "length e \<le> k"
    and kes: "length (concat (map (\<lambda>e. CHR '' '' # e) es)) \<le> k"
    by (cases n) simp_all
  from Cons.prems(1) have
    e: "word_token e \<or>
          ((\<exists>e'. e = CHR ''<'' # e') \<and>
           (\<forall>n pv rest. length e \<le> n \<longrightarrow>
              nested_fuel n False (pv, e @ rest) = Some ([Str e], (Some CHR ''>'', rest))))"
    and es: "\<forall>e\<in>set es. word_token e \<or>
             ((\<exists>e'. e = CHR ''<'' # e') \<and>
              (\<forall>n pv rest. length e \<le> n \<longrightarrow>
                 nested_fuel n False (pv, e @ rest) = Some ([Str e], (Some CHR ''>'', rest))))"
    by simp_all
  have next_items: "\<exists>st2. items_fuel k (pv1, tail) = (map Str es, st2) \<and>
               skip_white st2 = (Some CHR '' '', CHR ''>'' # rest)" for pv1
    by (rule Cons.IH [OF es kes]) (simp add: tail_def)
  have st0: "skip_white st = skip_white (Some CHR '' '', e @ tail)"
    using Cons.prems(3) by (simp add: tail_def white_chars_def)
  from e show ?case
  proof
    assume w: "word_token e"
    then obtain c e' where ce: "e = c # e'" by (cases e) (auto simp: word_token_def)
    from w ce have c: "c \<noteq> CHR ''<''" "c \<noteq> CHR 0x22" "c \<noteq> CHR 0x27" "\<not> py_isspace c"
      by (auto simp: word_token_def)
    from c(4) white_isspace have cw: "c \<notin> set white_chars" by blast
    have sw: "skip_white st = (Some CHR '' '', c # e' @ tail)"
      using st0 cw by (simp add: ce)
    have q: "quotedString True st = None"
      unfolding quotedString_skip sw using c(2,3) by (rule quotedString_None)
    have ne: "nested_fuel k True st = None"
      unfolding nested_skip sw using c(1) by (rule nested_None)
    have "content False (Some CHR '' '', e @ CHR '' '' # t) = Some ([Str e], (Some (last e), CHR '' '' # t))"
      using w by (rule content_word)
    then have co: "content True st = Some ([Str e], (Some (last e), tail))"
      unfolding content_skip sw t by (simp add: ce)
    from next_items [of "Some (last e)"] obtain st2 where
      it: "items_fuel k (Some (last e), tail) = (map Str es, st2)"
      and s2: "skip_white st2 = (Some CHR '' '', CHR ''>'' # rest)" by blast
    have "items_fuel n st = (map Str (e # es), st2)"
      unfolding k by (simp add: q ne co it)
    with s2 show ?thesis by blast
  next
    assume "(\<exists>e'. e = CHR ''<'' # e') \<and>
           (\<forall>n pv rest. length e \<le> n \<longrightarrow>
              nested_fuel n False (pv, e @ rest) = Some ([Str e], (Some CHR ''>'', rest)))"
    then obtain e' where ce: "e = CHR ''<'' # e'"
      and fp: "\<And>n pv rest. length e \<le> n \<Longrightarrow>
              nested_fuel n False (pv, e @ rest) = Some ([Str e], (Some CHR ''>'', rest))"
      by blast
    have sw: "skip_white st = (Some CHR '' '', CHR ''<'' # e' @ tail)"
      using st0 by (simp add: ce white_chars_def)
    have q: "quotedString True st = None"
      unfolding quotedString_skip sw by (rule quotedString_None) simp_all
    have "nested_fuel k False (Some CHR '' '', e @ tail) = Some ([Str e], (Some CHR ''>'', tail))"
      using ke by (rule fp)
    then have ne: "nested_fuel k True st = Some ([Str e], (Some CHR ''>'', tail))"
      unfolding nested_skip sw by (simp add: ce)
    from next_items [of "Some CHR ''>''"] obtain st2 where
      it: "items_fuel k (Some CHR ''>'', tail) = (map Str es, st2)"
      and s2: "skip_white st2 = (Some CHR '' '', CHR ''>'' # rest)" by blast
    have "items_fuel n st = (map Str (e # es), st2)"
      unfolding k by (simp add: q ne it)
    with s2 show ?thesis by blast
  qed
qed

lemma normal_rendering_open: "normal_rendering r \<Longrightarrow> \<exists>e'. r = CHR ''<'' # e'"
  by (erule normal_rendering.cases) simp

lemma nested_fixpoint:
  "normal_rendering r \<Longrightarrow> length r \<le> n \<Longrightarrow>
   nested_fuel n False (pv, r @ rest) = Some ([Str r], (Some CHR ''>'', rest))"
proof (induction arbitrary: n pv rest rule: normal_rendering.induct)
  case (region elems)
  define body where "body = concat (map (\<lambda>e. CHR '' '' # e) elems)"
  have el: "\<forall>e\<in>set elems. word_token e \<or>
             ((\<exists>e'. e = CHR ''<'' # e') \<and>
              (\<forall>n pv rest. length e \<le> n \<longrightarrow>
                 nested_fuel n False (pv, e @ rest) = Some ([Str e], (Some CHR ''>'', rest))))"
    using region.IH normal_rendering_open by blast
  from region.prems obtain m where m: "n = Suc m" and bm: "length body \<le> m"
    by (cases n) (simp_all add: body_def)
  define st1 where "st1 = skip_white (Some CHR ''<'', body @ '' >'' @ rest)"
  have "skip_white st1 = skip_white (Some CHR ''<'', body @ '' >'' @ rest)"
    unfolding st1_def by (rule skip_white_idem)
  from items_fixpoint [OF el bm [unfolded body_def] this [unfolded body_def]] obtain st2 where
    it: "items_fuel m st1 = (map Str elems, st2)"
    and s2: "skip_white st2 = (Some CHR '' '', CHR ''>'' # rest)" by blast
  have cl: "Literal ''>'' True st2 = Some ([Str ''>''], (Some CHR ''>'', rest))"
    unfolding Literal_skip s2 by (rule Literal_close)
  have op: "Literal ''<'' False (pv, CHR ''<'' # body @ '' >'' @ rest) =
      Some ([Str ''<''], (Some CHR ''<'', body @ '' >'' @ rest))"
    by (rule Literal_open)
  have "nested_fuel (Suc m) False (pv, CHR ''<'' # body @ '' >'' @ rest) =
      Some ([Str (normalise_templates (map Str elems))], (Some CHR ''>'', rest))"
    unfolding nested_fuel.simps op using it cl by (simp add: st1_def)
  then show ?case
    unfolding m by (simp add: body_def s_list_loop_Str)
qed


lemma isspace_cases: "py_isspace c \<Longrightarrow> c \<in> set white_chars \<or> c \<in> set odd_space_chars"
  by (auto simp: py_isspace_def white_chars_def odd_space_chars_def)

lemma skip_white_subset: "set (snd (skip_white st)) \<subseteq> set (snd st)"
proof -
  have "set (snd (skip_white (pv, s))) \<subseteq> set s" for pv s
    by (induction s arbitrary: pv) auto
  then show ?thesis by (cases st) simp
qed

lemma consume_subset: "set (snd (consume n st)) \<subseteq> set (snd st)"
  by (induction n st rule: consume.induct) auto

lemma pre_parse_subset: "set (snd (pre_parse sk st)) \<subseteq> set (snd st)"
  using skip_white_subset by (simp add: pre_parse_def)

lemma Literal_subset:
  assumes "Literal m sk st = Some (t, st')"
  shows "set (snd st') \<subseteq> set (snd st)"
proof -
  from assms have "st' = consume (length m) (pre_parse sk st)"
    by (simp add: Literal_def Let_def split: if_splits)
  then show ?thesis using consume_subset pre_parse_subset by blast
qed

lemma Regex_quoted_absent:
  assumes "q \<notin> set (snd st)"
  shows "Regex_quoted q sk st = None"
proof -
  have "q \<notin> set (snd (pre_parse sk st))" using assms pre_parse_subset by blast
  then show ?thesis
    by (cases "snd (pre_parse sk st)") (auto simp: Regex_quoted_def Let_def)
qed

lemma quotedString_absent:
  assumes "CHR 0x22 \<notin> set (snd st)" "CHR 0x27 \<notin> set (snd st)"
  shows "quotedString sk st = None"
proof -
  have "CHR 0x22 \<notin> set (snd (pre_parse sk st))" "CHR 0x27 \<notin> set (snd (pre_parse sk st))"
    using assms pre_parse_subset by blast+
  then show ?thesis
    by (simp add: quotedString_def Combine_def MatchFirst_def And_def Regex_quoted_absent)
qed

lemma many_inv:
  "many p sk st = (ts, st') \<Longrightarrow> I st \<Longrightarrow>
   (\<And>st t st1. I st \<Longrightarrow> p sk st = Some (t, st1) \<Longrightarrow> (\<forall>x\<in>set t. Q x) \<and> I st1) \<Longrightarrow>
   (\<forall>x\<in>set ts. Q x) \<and> I st'"
proof (induction p sk st arbitrary: ts st' rule: many.induct)
  case (1 p sk st)
  note step = "1.prems"(3)
  show ?case
  proof (cases "p sk st")
    case None
    with "1.prems"(1) have "ts = []" "st' = st" by (subst (asm) many.simps, simp)+
    then show ?thesis using "1.prems"(2) by simp
  next
    case (Some r)
    obtain t st1 where r: "r = (t, st1)" by (cases r)
    have qt: "(\<forall>x\<in>set t. Q x) \<and> I st1" using step [OF "1.prems"(2)] Some r by blast
    show ?thesis
    proof (cases "length (snd st1) < length (snd st)")
      case True
      obtain ts1 st2 where m: "many p sk st1 = (ts1, st2)" by (cases "many p sk st1")
      have "(\<forall>x\<in>set ts1. Q x) \<and> I st2"
        by (rule "1.IH" [OF Some r [symmetric] True m]) (use qt step in blast)+
      moreover have "ts = t @ ts1 \<and> st' = st2"
        using "1.prems"(1) Some r True m by (subst (asm) many.simps) simp
      ultimately show ?thesis using qt by auto
    next
      case False
      have "ts = t \<and> st' = st1"
        using "1.prems"(1) Some r False by (subst (asm) many.simps) simp
      then show ?thesis using qt by simp
    qed
  qed
qed

lemma content_char_state:
  assumes "And (NotAny q) (CharsNotIn1 X) sk st = Some (t, st')"
  shows "\<exists>c s. snd st = c # s \<and> t = [Str [c]] \<and> c \<notin> set X \<and> snd st' = s"
proof -
  from And_tokens [OF assms] obtain t1 st1 t2 where
    1: "NotAny q sk st = Some (t1, st1)" and 2: "CharsNotIn1 X sk st1 = Some (t2, st')"
    and t: "t = t1 @ t2" by blast
  from 1 have n: "t1 = []" "st1 = st" by (cases "q sk st"; simp add: NotAny_def)+
  obtain pv s0 where st: "st = (pv, s0)" by (cases st)
  from 2 n st obtain c s where "s0 = c # s" "c \<notin> set X" "t2 = [Str [c]]" "st' = (Some c, s)"
    by (cases s0) (auto simp: CharsNotIn1_def split: if_splits)
  with t n st show ?thesis by simp
qed

lemma concat_in:
  "\<forall>x\<in>set toks. \<exists>c. x = Str [c] \<and> c \<in> B \<Longrightarrow> set (concat (asStringList toks)) \<subseteq> B"
proof (induction toks)
  case Nil
  show ?case by simp
next
  case (Cons a toks)
  from Cons.prems obtain c where a: "a = Str [c]" and c: "c \<in> B" by auto
  from Cons.prems have "\<forall>x\<in>set toks. \<exists>c. x = Str [c] \<and> c \<in> B" by simp
  then have "set (concat (asStringList toks)) \<subseteq> B" by (rule Cons.IH)
  then show ?case using a c by simp
qed

lemma content_plain:
  assumes "content sk st = Some (t, st')" and "plain_text (snd st)"
  shows "\<exists>e. t = [Str e] \<and> word_token e \<and> set (snd st') \<subseteq> set (snd st)"
proof -
  define X where "X = ''<>'' @ white_chars"
  define p :: "tok parser" where "p = And (NotAny quotedString) (CharsNotIn1 X)"
  have cd: "content = parse_action strip_action (Combine (OneOrMore p))"
    by (simp add: content_def p_def X_def)
  define B where "B = set (snd st) - set X"
  define I where "I = (\<lambda>s :: pstate. set (snd s) \<subseteq> set (snd st))"
  define Q where "Q = (\<lambda>x. \<exists>c. x = Str [c] \<and> c \<in> B)"
  from parse_action_tokens [OF assms(1) [unfolded cd]] obtain toks where
    c: "Combine (OneOrMore p) sk st = Some (toks, st')" and t: "t = strip_action toks" by blast
  from Combine_tokens [OF c] obtain toks0 where
    o: "OneOrMore p False (pre_parse sk st) = Some (toks0, st')"
    and toks: "toks = [Str (concat (asStringList toks0))]" by blast
  from OneOrMore_tokens [OF o] obtain t1 st1 ts where
    f: "p False (pre_parse sk st) = Some (t1, st1)" and m: "many p False st1 = (ts, st')"
    and t0: "toks0 = t1 @ ts" by blast
  have step: "(\<forall>x\<in>set u. Q x) \<and> I sb" if "I sa" "p False sa = Some (u, sb)" for sa u sb
  proof -
    from content_char_state [OF that(2) [unfolded p_def]] obtain c s where
      "snd sa = c # s" "u = [Str [c]]" "c \<notin> set X" "snd sb = s" by blast
    with that(1) show ?thesis by (auto simp: I_def Q_def B_def)
  qed
  have i0: "I (pre_parse sk st)" unfolding I_def by (rule pre_parse_subset)
  from step [OF i0 f] have q1: "\<forall>x\<in>set t1. Q x" and i1: "I st1" by blast+
  have "(\<forall>x\<in>set ts. Q x) \<and> I st'"
    by (rule many_inv [where I = I and Q = Q, OF m i1]) (rule step)
  then have qs: "\<forall>x\<in>set ts. Q x" and i': "I st'" by blast+
  define w where "w = concat (asStringList toks0)"
  from content_char_state [OF f [unfolded p_def]] obtain c0 where "t1 = [Str [c0]]" by blast
  then have wne: "w \<noteq> []" by (simp add: w_def t0)
  have "\<forall>x\<in>set toks0. \<exists>c. x = Str [c] \<and> c \<in> B" using q1 qs t0 by (auto simp: Q_def)
  then have wB: "set w \<subseteq> B" unfolding w_def by (rule concat_in)
  have good: "c \<noteq> CHR ''<'' \<and> c \<noteq> CHR ''>'' \<and> c \<noteq> CHR 0x22 \<and> c \<noteq> CHR 0x27 \<and> \<not> py_isspace c"
    if "c \<in> set w" for c
  proof -
    from that wB have cs: "c \<in> set (snd st)" and cx: "c \<notin> set X" by (auto simp: B_def)
    from cs assms(2) have cq: "c \<notin> set quote_chars" and co: "c \<notin> set odd_space_chars"
      by (auto simp: plain_text_def)
    from cx have cw: "c \<notin> set white_chars" and cb: "c \<noteq> CHR ''<''" "c \<noteq> CHR ''>''"
      by (simp_all add: X_def)
    from cw co isspace_cases have "\<not> py_isspace c" by blast
    moreover from cq have "c \<noteq> CHR 0x22" "c \<noteq> CHR 0x27" by (simp_all add: quote_chars_def)
    ultimately show ?thesis using cb by simp
  qed
  then have wt: "word_token w" using wne by (simp add: word_token_def)
  have "hd w \<in> set w" "last w \<in> set w" using wne by simp_all
  with good have "\<not> py_isspace (hd w)" "\<not> py_isspace (last w)" by blast+
  with wne have "py_strip w = w" by (rule py_strip_id)
  then have "t = [Str w]" using t toks by (simp add: strip_action_def w_def)
  with wt i' show ?thesis by (simp add: I_def)
qed


lemma plain_text_subset: "plain_text s \<Longrightarrow> set s' \<subseteq> set s \<Longrightarrow> plain_text s'"
  by (auto simp: plain_text_def)

lemma quotedString_plain: "plain_text (snd st) \<Longrightarrow> quotedString sk st = None"
  by (rule quotedString_absent) (auto simp: plain_text_def quote_chars_def)

lemma nested_plain:
  "(\<forall>sk st t st'. nested_fuel n sk st = Some (t, st') \<longrightarrow> plain_text (snd st) \<longrightarrow>
      (\<exists>r. t = [Str r] \<and> normal_rendering r) \<and> set (snd st') \<subseteq> set (snd st)) \<and>
   (\<forall>st ts st'. items_fuel n st = (ts, st') \<longrightarrow> plain_text (snd st) \<longrightarrow>
      (\<exists>es. ts = map Str es \<and> (\<forall>e\<in>set es. word_token e \<or> normal_rendering e)) \<and>
      set (snd st') \<subseteq> set (snd st))"
proof (induction n)
  case 0
  show ?case by simp
next
  case (Suc n)
  have nest: "\<And>sk st t st'. nested_fuel n sk st = Some (t, st') \<Longrightarrow> plain_text (snd st) \<Longrightarrow>
      (\<exists>r. t = [Str r] \<and> normal_rendering r) \<and> set (snd st') \<subseteq> set (snd st)"
    using Suc.IH by blast
  have items: "\<And>st ts st'. items_fuel n st = (ts, st') \<Longrightarrow> plain_text (snd st) \<Longrightarrow>
      (\<exists>es. ts = map Str es \<and> (\<forall>e\<in>set es. word_token e \<or> normal_rendering e)) \<and>
      set (snd st') \<subseteq> set (snd st)"
    using Suc.IH by blast
  have cons: "(\<exists>es. ts = map Str es \<and> (\<forall>e\<in>set es. word_token e \<or> normal_rendering e)) \<and>
      set (snd st') \<subseteq> set (snd st)"
    if t: "\<exists>e. t = [Str e] \<and> (word_token e \<or> normal_rendering e)"
      and sub: "set (snd st1) \<subseteq> set (snd st)" and pl: "plain_text (snd st)"
      and c: "(case items_fuel n st1 of (ts, st'') \<Rightarrow> (t @ ts, st'')) = (ts, st')"
    for t st1 ts st' st
  proof -
    obtain ts1 st2 where i: "items_fuel n st1 = (ts1, st2)" by (cases "items_fuel n st1")
    have "plain_text (snd st1)" using pl sub by (rule plain_text_subset)
    from items [OF i this] obtain es where es: "ts1 = map Str es"
      "\<forall>e\<in>set es. word_token e \<or> normal_rendering e" and s2: "set (snd st2) \<subseteq> set (snd st1)"
      by blast
    from t obtain e where e: "t = [Str e]" "word_token e \<or> normal_rendering e" by blast
    from c i have "ts = t @ ts1" "st' = st2" by simp_all
    then have "ts = map Str (e # es)" "set (snd st') \<subseteq> set (snd st)" using e es s2 sub by auto
    moreover have "\<forall>x\<in>set (e # es). word_token x \<or> normal_rendering x" using e es by simp
    ultimately show ?thesis by blast
  qed
  show ?case
  proof (intro conjI allI impI)
    fix sk st t st'
    assume a: "nested_fuel (Suc n) sk st = Some (t, st')" and pl: "plain_text (snd st)"
    from a obtain t0 st1 where 1: "Literal ''<'' sk st = Some (t0, st1)"
      by (cases "Literal ''<'' sk st") auto
    obtain toks st2 where 2: "items_fuel n (skip_white st1) = (toks, st2)"
      by (cases "items_fuel n (skip_white st1)")
    from a 1 2 obtain t3 where 3: "Literal ''>'' True st2 = Some (t3, st')"
      and t: "t = [Str (normalise_templates toks)]"
      by (cases "Literal ''>'' True st2") auto
    have s1: "set (snd (skip_white st1)) \<subseteq> set (snd st)"
      using Literal_subset [OF 1] skip_white_subset [of st1] by blast
    have "plain_text (snd (skip_white st1))" using pl s1 by (rule plain_text_subset)
    from items [OF 2 this] obtain es where es: "toks = map Str es"
      "\<forall>e\<in>set es. word_token e \<or> normal_rendering e"
      and s2: "set (snd st2) \<subseteq> set (snd (skip_white st1))" by blast
    have "normalise_templates toks = ''<'' @ concat (map (\<lambda>e. CHR '' '' # e) es) @ '' >''"
      using es(1) by (simp add: s_list_loop_Str)
    moreover have "normal_rendering (''<'' @ concat (map (\<lambda>e. CHR '' '' # e) es) @ '' >'')"
      using es(2) by (rule normal_rendering.region)
    ultimately have "\<exists>r. t = [Str r] \<and> normal_rendering r" using t by simp
    moreover have "set (snd st') \<subseteq> set (snd st)"
      using Literal_subset [OF 3] s2 s1 by blast
    ultimately show "(\<exists>r. t = [Str r] \<and> normal_rendering r)" "set (snd st') \<subseteq> set (snd st)"
      by blast+
  next
    fix st ts st'
    assume a: "items_fuel (Suc n) st = (ts, st')" and pl: "plain_text (snd st)"
    have q: "quotedString True st = None" using pl by (rule quotedString_plain)
    have "(\<exists>es. ts = map Str es \<and> (\<forall>e\<in>set es. word_token e \<or> normal_rendering e)) \<and>
      set (snd st') \<subseteq> set (snd st)"
    proof (cases "nested_fuel n True st")
      case (Some r)
      obtain t st1 where r: "r = (t, st1)" by (cases r)
      from nest [OF Some [unfolded r] pl]
      have "\<exists>e. t = [Str e] \<and> (word_token e \<or> normal_rendering e)"
        and "set (snd st1) \<subseteq> set (snd st)" by blast+
      moreover have "(case items_fuel n st1 of (ts, st'') \<Rightarrow> (t @ ts, st'')) = (ts, st')"
        using a q Some r by simp
      ultimately show ?thesis using pl by (intro cons [of t st1 st]) 
    next
      case ne: None
      show ?thesis
      proof (cases "content True st")
        case (Some r)
        obtain t st1 where r: "r = (t, st1)" by (cases r)
        from content_plain [OF Some [unfolded r] pl]
        have "\<exists>e. t = [Str e] \<and> (word_token e \<or> normal_rendering e)"
          and "set (snd st1) \<subseteq> set (snd st)" by blast+
        moreover have "(case items_fuel n st1 of (ts, st'') \<Rightarrow> (t @ ts, st'')) = (ts, st')"
          using a q ne Some r by simp
        ultimately show ?thesis using pl by (intro cons [of t st1 st])
      next
        case None
        with a q ne have "ts = []" "st' = st" by simp_all
        then show ?thesis by simp
      qed
    qed
    then show "\<exists>es. ts = map Str es \<and> (\<forall>e\<in>set es. word_token e \<or> normal_rendering e)"
      "set (snd st') \<subseteq> set (snd st)" by blast+
  qed
qed

lemma normal_fixpoint:
  assumes "normal_rendering r"
  shows "angle_bracket_pair True (None, r) = Some ([Str r], (Some CHR ''>'', []))"
proof -
  from normal_rendering_open [OF assms] obtain e' where r: "r = CHR ''<'' # e'" ..
  have sw: "skip_white (None, r) = (None, r)" by (simp add: r white_chars_def)
  have "nested_fuel (2 * length r + 2) False (None, r @ []) = Some ([Str r], (Some CHR ''>'', []))"
    using assms by (rule nested_fixpoint) simp
  then show ?thesis
    by (simp add: angle_bracket_pair_def nested_expr_def nested_skip sw)
qed

text \<open>
  Claim C6, in the form that holds. Let the text hold no quote character and none of the
  characters that \<open>strip\<close> removes and the grammar does not skip (vertical tab, form feed,
  the codes 28 to 31, 133 and 160). Whenever \<open>angle_bracket_pair\<close> matches a template
  argument list in it, the result is one string, a normal rendering, and
  \<open>angle_bracket_pair\<close> applied to that rendering matches all of it and returns the very same
  string.
\<close>

theorem template_idempotent:
  assumes "plain_text s" and "angle_bracket_pair sk (pv, s) = Some (t, st')"
  shows "\<exists>r. t = [Str r] \<and> normal_rendering r \<and>
             angle_bracket_pair True (None, r) = Some ([Str r], (Some CHR ''>'', []))"
proof -
  from assms(2) have "nested_fuel (2 * length s + 2) sk (pv, s) = Some (t, st')"
    by (simp add: angle_bracket_pair_def nested_expr_def)
  moreover have "plain_text (snd (pv, s))" using assms(1) by simp
  ultimately have "(\<exists>r. t = [Str r] \<and> normal_rendering r) \<and> set (snd st') \<subseteq> set (snd (pv, s))"
    using nested_plain [of "2 * length s + 2", THEN conjunct1, rule_format] by blast
  then obtain r where "t = [Str r]" "normal_rendering r" by blast
  then show ?thesis using normal_fixpoint by blast
qed

theorem template_idempotent_witness:
  "plain_text ''<a<b>  c>'' \<and>
   angle_bracket_pair True (None, ''<a<b>  c>'') = Some ([Str ''< a < b > c >''], Some CHR ''>'', []) \<and>
   angle_bracket_pair True (None, ''< a < b > c >'') = Some ([Str ''< a < b > c >''], Some CHR ''>'', [])"
proof -
  have h1: "plain_text ''<a<b>  c>''" by code_simp
  have h2: "angle_bracket_pair True (None, ''<a<b>  c>'') = Some ([Str ''< a < b > c >''], Some CHR ''>'', [])"
    by code_simp
  from template_idempotent [OF h1 h2] obtain r where
    r: "[Str ''< a < b > c >''] = [Str r]"
    and p: "angle_bracket_pair True (None, r) = Some ([Str r], (Some CHR ''>'', []))" by blast
  from r have "r = ''< a < b > c >''" by simp
  with p h1 h2 show ?thesis by simp
qed

text \<open>
  Claim C6 as stated, for every template argument list, fails at two inputs. In the first a
  double quote and \<open>a\<close> are followed by a line feed and by a nested pair that holds \<open>b\<close> and
  a double quote. The regular expression of a quoted string does not match across the line
  feed, so each quote ends up inside a token. In the rendering the line feed has become a
  space: parsed again, the two quotes delimit a quoted string that takes the opening bracket
  of the nested pair with it, and the result is a shorter rendering, with the last two
  characters left unread. In the second the list holds only a form feed: its rendering has
  an empty element and two spaces, and is parsed again as the empty list, with one space.
\<close>

theorem template_not_idempotent:
  "angle_bracket_pair True (None, [CHR ''<'', CHR 0x22, CHR ''a'', CHR 0x0A, CHR ''<'', CHR ''b'', CHR 0x22, CHR ''>'', CHR ''>''])
     = Some ([Str [CHR ''<'', CHR '' '', CHR 0x22, CHR ''a'', CHR '' '', CHR ''<'', CHR '' '', CHR ''b'', CHR 0x22, CHR '' '', CHR ''>'', CHR '' '', CHR ''>'']], Some CHR ''>'', []) \<and>
   angle_bracket_pair True (None, [CHR ''<'', CHR '' '', CHR 0x22, CHR ''a'', CHR '' '', CHR ''<'', CHR '' '', CHR ''b'', CHR 0x22, CHR '' '', CHR ''>'', CHR '' '', CHR ''>''])
     = Some ([Str [CHR ''<'', CHR '' '', CHR 0x22, CHR ''a'', CHR '' '', CHR ''<'', CHR '' '', CHR ''b'', CHR 0x22, CHR '' '', CHR ''>'']], Some CHR ''>'', '' >'') \<and>
   angle_bracket_pair True (None, [CHR ''<'', CHR 0x0C, CHR ''>'']) = Some ([Str ''<  >''], Some CHR ''>'', []) \<and>
   angle_bracket_pair True (None, ''<  >'') = Some ([Str ''< >''], Some CHR ''>'', [])"
  by code_simp

end
